theory Spec2Isabelle
  imports Main "HOL-Library.Sublist" "HOL-Library.Log_Nat"
begin

text \<open>
  The sequential study controller of \<^verbatim>\<open>src/pages/dashboard/sequential-study.js\<close>: the
  sections it builds from a study plan, its navigation between them, the grading of quiz
  answers and the quiz's score, results and forward button. Line numbers refer to that
  file.
\<close>

section \<open>JavaScript string primitives\<close>

text \<open>
  A JavaScript string is modelled as a \<^typ>\<open>string\<close> whose characters are the code
  units U+0000 .. U+00FF (the 256 values of \<^typ>\<open>char\<close>, read as Latin-1). On that
  range \<^verbatim>\<open>String.prototype.toLowerCase\<close> works code unit by code unit: A-Z and
  U+00C0 .. U+00DE without the multiplication sign U+00D7 move up by 32, every other
  code unit stays. \<^verbatim>\<open>String.prototype.trim\<close> removes WhiteSpace and LineTerminator
  code units from both ends; below U+0100 these are TAB, LF, VT, FF, CR, SPACE and
  NO-BREAK SPACE.
\<close>

definition toLowerCase_char :: "char \<Rightarrow> char" where
  "toLowerCase_char c =
     (let n = (of_char c :: nat)
      in if (65 \<le> n \<and> n \<le> 90) \<or> (192 \<le> n \<and> n \<le> 222 \<and> n \<noteq> 215)
         then char_of (n + 32) else c)"

definition toLowerCase :: "string \<Rightarrow> string" where
  "toLowerCase s = map toLowerCase_char s"

definition isWhiteSpace :: "char \<Rightarrow> bool" where
  "isWhiteSpace c =
     (let n = (of_char c :: nat)
      in n = 9 \<or> n = 10 \<or> n = 11 \<or> n = 12 \<or> n = 13 \<or> n = 32 \<or> n = 160)"

definition trim :: "string \<Rightarrow> string" where
  "trim s = rev (dropWhile isWhiteSpace (rev (dropWhile isWhiteSpace s)))"

text \<open>\<^verbatim>\<open>s.includes(t)\<close>: \<open>t\<close> occurs in \<open>s\<close> at some position.\<close>

fun includes_str :: "string \<Rightarrow> string \<Rightarrow> bool" where
  "includes_str [] t = (t = [])"
| "includes_str (c # s) t = (prefix t (c # s) \<or> includes_str s t)"

section \<open>The study plan document\<close>

text \<open>
  The constructor's argument \<^verbatim>\<open>studyPlanData\<close>. A property that may be missing
  (\<^verbatim>\<open>undefined\<close> or \<^verbatim>\<open>null\<close>) is an \<^typ>\<open>'a option\<close>.
\<close>

datatype concept_map =
    Hierarchical (main_topic: string) (subtopics: "string list")
  | ConceptArray "string list"

record example =
  example_title :: "string option"
  problem_statement :: "string option"
  step_by_step_solution :: "string list option"
  solution :: "string option"
  final_result :: "string option"

record quiz_question =
  question :: string
  question_type :: string
  options :: "string list option"
  answer :: string
  difficulty_rating :: "nat option"

record study_plan =
  summary :: "string option"
  concept_map :: "concept_map option"
  learning_objectives :: "string list option"
  worked_examples :: "example list option"
  active_recall :: "quiz_question list option"

section \<open>Sections\<close>

datatype section_kind = Explanation | Example | Quiz

record quiz_content =
  questions :: "quiz_question list"
  currentQuestion :: int
  score :: int

datatype content =
    ExplanationContent string "concept_map option" "string list"
  | ExampleContent "example list"
  | QuizContent quiz_content

record button =
  button_text :: string
  enabled :: bool

record study_section =
  title :: string
  section_type :: section_kind
  content :: content
  next_button :: button

text \<open>
  \<^verbatim>\<open>buildSections\<close> (lines 26-78). \<^verbatim>\<open>x || dflt\<close> takes the default for a missing
  property; \<^verbatim>\<open>xs && xs.length > 0\<close> is false for a missing list and for an empty one;
  \<^verbatim>\<open>xs.slice(0, 3)\<close> is \<^term>\<open>take 3 xs\<close>.
\<close>

definition buildSections :: "study_plan \<Rightarrow> study_section list" where
  "buildSections d =
     (let sections1 =
            [\<lparr>title = ''Understanding the Concept'',
              section_type = Explanation,
              content = ExplanationContent
                (case summary d of None \<Rightarrow> [] | Some s \<Rightarrow> s)
                (concept_map d)
                (case learning_objectives d of None \<Rightarrow> [] | Some os \<Rightarrow> os),
              next_button = \<lparr>button_text = ''Continue to Examples'', enabled = True\<rparr>\<rparr>];
          sections2 =
            (case worked_examples d of
               None \<Rightarrow> sections1
             | Some exs \<Rightarrow>
                 if length exs > 0
                 then sections1 @
                   [\<lparr>title = ''See It in Action'',
                     section_type = Example,
                     content = ExampleContent exs,
                     next_button = \<lparr>button_text = ''Continue to Quiz'', enabled = True\<rparr>\<rparr>]
                 else sections1);
          sections3 =
            (case active_recall d of
               None \<Rightarrow> sections2
             | Some qs \<Rightarrow>
                 if length qs > 0
                 then let quizQuestions = take 3 qs
                      in sections2 @
                        [\<lparr>title = ''Test Your Understanding'',
                          section_type = Quiz,
                          content = QuizContent
                            \<lparr>questions = quizQuestions, currentQuestion = 0, score = 0\<rparr>,
                          next_button = \<lparr>button_text = ''Finish Section'', enabled = False\<rparr>\<rparr>]
                 else sections2)
      in sections3)"

text \<open>The two input lists as the data model names them: a missing list is empty.\<close>

definition workedExamplesOf :: "study_plan \<Rightarrow> example list" where
  "workedExamplesOf d = (case worked_examples d of None \<Rightarrow> [] | Some exs \<Rightarrow> exs)"

definition quizQuestionsOf :: "study_plan \<Rightarrow> quiz_question list" where
  "quizQuestionsOf d = (case active_recall d of None \<Rightarrow> [] | Some qs \<Rightarrow> qs)"

text \<open>The question lists of the quiz sections of a section sequence, in order.\<close>

fun quizQuestionLists :: "study_section list \<Rightarrow> quiz_question list list" where
  "quizQuestionLists [] = []"
| "quizQuestionLists (s # ss) =
     (case content s of
        QuizContent q \<Rightarrow> questions q # quizQuestionLists ss
      | _ \<Rightarrow> quizQuestionLists ss)"

section \<open>JavaScript numbers\<close>

text \<open>
  A JavaScript number is an IEEE 754 binary64 value. A finite one is modelled by the
  rational it denotes; \<open>None\<close> stands for \<^verbatim>\<open>NaN\<close> and the infinities. \<open>binade x\<close> is
  the exponent \<open>e\<close> with \<open>2^e \<le> x < 2^(e+1)\<close> of a positive rational, \<open>roundTiesToEven\<close>
  the rounding of a rational to an integer that the standard prescribes, and \<open>fl x\<close> the
  nearest value with a 53-bit significand: the result of one arithmetic operation whose
  exact result is \<open>x\<close>, as long as it stays in the normal range (below \<open>2^1024\<close> and not
  below \<open>2^-1022\<close> in magnitude, which every value computed here does).
\<close>

definition binade :: "rat \<Rightarrow> int" where
  "binade x =
     (let (a, b) = quotient_of x; d = bitlen a - bitlen b
      in if 2 powi d \<le> x then d else d - 1)"

definition roundTiesToEven :: "rat \<Rightarrow> int" where
  "roundTiesToEven y =
     (let f = \<lfloor>y\<rfloor>; r = y - of_int f
      in if r < 1 / 2 then f
         else if 1 / 2 < r then f + 1
         else if even f then f else f + 1)"

definition fl :: "rat \<Rightarrow> rat" where
  "fl x =
     (if x = 0 then 0
      else if 0 < x
      then of_int (roundTiesToEven (x / 2 powi (binade x - 52))) * 2 powi (binade x - 52)
      else - (of_int (roundTiesToEven (- x / 2 powi (binade (- x) - 52)))
              * 2 powi (binade (- x) - 52)))"

text \<open>\<^verbatim>\<open>a / b\<close> and \<^verbatim>\<open>a * b\<close> on finite numbers; a zero divisor gives \<^verbatim>\<open>NaN\<close> or an infinity.\<close>

definition js_div :: "rat \<Rightarrow> rat \<Rightarrow> rat option" where
  "js_div a b = (if b = 0 then None else Some (fl (a / b)))"

definition js_mul :: "rat \<Rightarrow> rat \<Rightarrow> rat option" where
  "js_mul a b = Some (fl (a * b))"

text \<open>\<^verbatim>\<open>Math.round\<close>: the nearest integer, a tie going up.\<close>

definition Math_round :: "rat \<Rightarrow> int" where
  "Math_round x = \<lfloor>x + 1 / 2\<rfloor>"

text \<open>\<^verbatim>\<open>Math.round((score / total) * 100)\<close> (line 671).\<close>

definition percentage :: "int \<Rightarrow> nat \<Rightarrow> int option" where
  "percentage sc tot =
     (case js_div (of_int sc) (of_nat tot) of
        None \<Rightarrow> None
      | Some q \<Rightarrow> (case js_mul q 100 of None \<Rightarrow> None | Some p \<Rightarrow> Some (Math_round p)))"

section \<open>The controller\<close>

text \<open>
  The rendering surface is the browser's; the model keeps of it what the controller's
  own code asks of it, namely which of the elements that the controller looks up by
  selector are in the container:
  \<^item> \<open>HostView\<close>: the element as the caller passed it, nothing of the controller's in it;
  \<^item> \<open>SectionView\<close>: an explanation or example section (\<^verbatim>\<open>.section-content\<close>);
  \<^item> \<open>QuizQuestionView\<close>: a quiz question with its inputs and the hidden, empty
    \<^verbatim>\<open>#quiz-feedback\<close>;
  \<^item> \<open>QuizFeedbackView k\<close>: the same after \<^verbatim>\<open>submitQuizAnswer\<close> filled the feedback
    with the button \<^verbatim>\<open>#next-quiz-question\<close>, whose click handler closes over the
    section at index \<open>k\<close>;
  \<^item> \<open>QuizResultsView\<close>: \<^verbatim>\<open>.section-content\<close> replaced by the results, so the feedback
    and its button are gone.

  The completion callback is an opaque function; \<open>Handler n\<close> names it. An uncaught
  JavaScript exception is \<open>Inl TypeError\<close>, returned together with the state the call
  left behind. \<open>Inl NoSuchControl\<close> says that a click was asked for on a button that is
  not in the container. The three counters (section index, question index, score) are
  JavaScript numbers that hold integers, modelled as \<^typ>\<open>int\<close>; JavaScript counts
  exactly up to \<open>2^53\<close>.
\<close>

datatype view = HostView | SectionView | QuizQuestionView | QuizFeedbackView int | QuizResultsView

datatype handler = Handler nat

datatype error = TypeError | NoSuchControl

datatype signal =
    Advanced
  | Completed "handler option"
  | Retreated
  | NoOp
  | Answered bool
  | NextQuestion
  | QuizFinished int nat "int option"
  | Done

record controller =
  data :: study_plan
  currentSectionIndex :: int
  sections :: "study_section list"
  container :: "view option"
  onComplete :: "handler option"

type_synonym 'a result = "(error + 'a) \<times> controller"

text \<open>The constructor (lines 14-20).\<close>

definition SequentialStudy :: "study_plan \<Rightarrow> controller" where
  "SequentialStudy studyPlanData =
     \<lparr>data = studyPlanData,
      currentSectionIndex = 0,
      sections = buildSections studyPlanData,
      container = None,
      onComplete = None\<rparr>"

text \<open>\<^verbatim>\<open>xs[i]\<close>: \<^verbatim>\<open>undefined\<close> outside the array.\<close>

definition at_index :: "'a list \<Rightarrow> int \<Rightarrow> 'a option" where
  "at_index xs i = (if 0 \<le> i \<and> i < int (length xs) then Some (xs ! nat i) else None)"

text \<open>\<^verbatim>\<open>getCurrentSection\<close> (lines 83-85): \<^verbatim>\<open>this.sections[i] || null\<close>.\<close>

definition getCurrentSection :: "controller \<Rightarrow> study_section option" where
  "getCurrentSection c = at_index (sections c) (currentSectionIndex c)"

text \<open>
  A write through a reference to the section object at index \<open>k\<close> of
  \<^verbatim>\<open>this.sections\<close>.
\<close>

definition updateSection :: "int \<Rightarrow> (study_section \<Rightarrow> study_section) \<Rightarrow> controller \<Rightarrow> controller" where
  "updateSection k f c =
     (if 0 \<le> k \<and> k < int (length (sections c))
      then c\<lparr>sections := (sections c)[nat k := f (sections c ! nat k)]\<rparr>
      else c)"

text \<open>
  \<^verbatim>\<open>renderSection\<close> (lines 130-232). It returns early without a container or without a
  current section. Of the three renderers only \<^verbatim>\<open>renderQuiz\<close> can throw: it reads
  \<^verbatim>\<open>content.questions[content.currentQuestion]\<close> and then a property of that question.
  The exception comes before the container is written.
\<close>

definition renderSection :: "controller \<Rightarrow> unit result" where
  "renderSection c =
     (case container c of
        None \<Rightarrow> (Inr (), c)
      | Some v \<Rightarrow>
          (case getCurrentSection c of
             None \<Rightarrow> (Inr (), c)
           | Some sec \<Rightarrow>
               (case section_type sec of
                  Explanation \<Rightarrow> (Inr (), c\<lparr>container := Some SectionView\<rparr>)
                | Example \<Rightarrow> (Inr (), c\<lparr>container := Some SectionView\<rparr>)
                | Quiz \<Rightarrow>
                    (case content sec of
                       QuizContent qc \<Rightarrow>
                         (case at_index (questions qc) (currentQuestion qc) of
                            None \<Rightarrow> (Inl TypeError, c)
                          | Some q \<Rightarrow> (Inr (), c\<lparr>container := Some QuizQuestionView\<rparr>))
                     | _ \<Rightarrow> (Inl TypeError, c)))))"

text \<open>\<^verbatim>\<open>render\<close> (lines 122-125).\<close>

definition render :: "controller \<Rightarrow> signal result" where
  "render c =
     (case renderSection (c\<lparr>container := Some HostView\<rparr>) of
        (Inl e, c') \<Rightarrow> (Inl e, c')
      | (Inr u, c') \<Rightarrow> (Inr Done, c'))"

text \<open>
  \<^verbatim>\<open>fadeOut\<close> (lines 731-746) sets styles and waits; \<^verbatim>\<open>fadeIn\<close> (lines 751-774) calls
  \<^verbatim>\<open>renderSection\<close> when there is a container, sets styles and waits. A call is
  modelled from its start to the settling of its promise, with no other call in between.
\<close>

definition fadeOut :: "controller \<Rightarrow> unit result" where
  "fadeOut c = (Inr (), c)"

definition fadeIn :: "controller \<Rightarrow> unit result" where
  "fadeIn c = (case container c of None \<Rightarrow> (Inr (), c) | Some v \<Rightarrow> renderSection c)"

text \<open>
  \<^verbatim>\<open>nextSection\<close> (lines 97-107). \<open>Completed (Some h)\<close>: the callback \<open>h\<close> was called, once;
  \<open>Completed None\<close>: no callback was registered and none was called.
\<close>

definition nextSection :: "controller \<Rightarrow> signal result" where
  "nextSection c =
     (if currentSectionIndex c \<ge> int (length (sections c)) - 1
      then (Inr (Completed (onComplete c)), c)
      else
        (case fadeOut c of
           (Inl e, c1) \<Rightarrow> (Inl e, c1)
         | (Inr u, c1) \<Rightarrow>
             (let c2 = c1\<lparr>currentSectionIndex := currentSectionIndex c1 + 1\<rparr>
              in case fadeIn c2 of
                   (Inl e, c3) \<Rightarrow> (Inl e, c3)
                 | (Inr u', c3) \<Rightarrow> (Inr Advanced, c3))))"

text \<open>\<^verbatim>\<open>prevSection\<close> (lines 112-117).\<close>

definition prevSection :: "controller \<Rightarrow> signal result" where
  "prevSection c =
     (if currentSectionIndex c \<le> 0
      then (Inr NoOp, c)
      else
        (case fadeOut c of
           (Inl e, c1) \<Rightarrow> (Inl e, c1)
         | (Inr u, c1) \<Rightarrow>
             (let c2 = c1\<lparr>currentSectionIndex := currentSectionIndex c1 - 1\<rparr>
              in case fadeIn c2 of
                   (Inl e, c3) \<Rightarrow> (Inl e, c3)
                 | (Inr u', c3) \<Rightarrow> (Inr Retreated, c3))))"

text \<open>The grading of \<^verbatim>\<open>submitQuizAnswer\<close> (lines 586-593).\<close>

definition isCorrect :: "quiz_question \<Rightarrow> string \<Rightarrow> bool" where
  "isCorrect q userAnswer =
     (if question_type q = ''multiple_choice''
      then trim (toLowerCase userAnswer) = trim (toLowerCase (answer q))
      else includes_str (toLowerCase userAnswer) (toLowerCase (answer q))
           \<or> includes_str (toLowerCase (answer q)) (toLowerCase userAnswer))"

text \<open>\<^verbatim>\<open>section.content.score++\<close> on a section object.\<close>

definition incrementScore :: "study_section \<Rightarrow> study_section" where
  "incrementScore sec =
     (case content sec of
        QuizContent qc \<Rightarrow> sec\<lparr>content := QuizContent (qc\<lparr>score := score qc + 1\<rparr>)\<rparr>
      | _ \<Rightarrow> sec)"

text \<open>
  The first two lines of \<^verbatim>\<open>submitQuizAnswer\<close> (lines 582-583) and the first read of
  the question: the index and the question being answered. \<open>None\<close> when the read throws:
  the current section is missing or has no questions, or there is no question at
  \<^verbatim>\<open>currentQuestion\<close>.
\<close>

definition currentQuestionOf :: "controller \<Rightarrow> (int \<times> quiz_question) option" where
  "currentQuestionOf c =
     (case getCurrentSection c of
        None \<Rightarrow> None
      | Some sec \<Rightarrow>
          (case content sec of
             QuizContent qc \<Rightarrow>
               (case at_index (questions qc) (currentQuestion qc) of
                  None \<Rightarrow> None
                | Some q \<Rightarrow> Some (currentQuestion qc, q))
           | _ \<Rightarrow> None))"

text \<open>
  \<^verbatim>\<open>submitQuizAnswer\<close> (lines 581-662). The score is written before the feedback
  element is looked up, so a missing container or a missing \<^verbatim>\<open>#quiz-feedback\<close> throws
  after the score has changed. Otherwise the feedback is filled, whether or not an
  earlier call has filled it already.
\<close>

definition submitQuizAnswer :: "string \<Rightarrow> controller \<Rightarrow> signal result" where
  "submitQuizAnswer userAnswer c =
     (case currentQuestionOf c of
        None \<Rightarrow> (Inl TypeError, c)
      | Some (i, q) \<Rightarrow>
          (let ok = isCorrect q userAnswer;
               c1 = (if ok then updateSection (currentSectionIndex c) incrementScore c else c)
           in case container c1 of
                None \<Rightarrow> (Inl TypeError, c1)
              | Some v \<Rightarrow>
                  (case v of
                     QuizQuestionView \<Rightarrow>
                       (Inr (Answered ok),
                        c1\<lparr>container := Some (QuizFeedbackView (currentSectionIndex c))\<rparr>)
                   | QuizFeedbackView k \<Rightarrow>
                       (Inr (Answered ok),
                        c1\<lparr>container := Some (QuizFeedbackView (currentSectionIndex c))\<rparr>)
                   | _ \<Rightarrow> (Inl TypeError, c1))))"

text \<open>\<^verbatim>\<open>section.next_button.enabled = true\<close> on a section object.\<close>

definition enableNext :: "study_section \<Rightarrow> study_section" where
  "enableNext sec = sec\<lparr>next_button := (next_button sec)\<lparr>enabled := True\<rparr>\<rparr>"

text \<open>
  \<^verbatim>\<open>showQuizResults\<close> (lines 667-726). The results are written into
  \<^verbatim>\<open>.section-content\<close>, which every rendered section has, before the button is enabled.
\<close>

definition showQuizResults :: "controller \<Rightarrow> signal result" where
  "showQuizResults c =
     (case getCurrentSection c of
        None \<Rightarrow> (Inl TypeError, c)
      | Some sec \<Rightarrow>
          (case content sec of
             QuizContent qc \<Rightarrow>
               (let tot = length (questions qc)
                in case container c of
                     None \<Rightarrow> (Inl TypeError, c)
                   | Some v \<Rightarrow>
                       (case v of
                          HostView \<Rightarrow> (Inl TypeError, c)
                        | _ \<Rightarrow>
                            (Inr (QuizFinished (score qc) tot (percentage (score qc) tot)),
                             updateSection (currentSectionIndex c) enableNext
                               (c\<lparr>container := Some QuizResultsView\<rparr>))))
           | _ \<Rightarrow> (Inl TypeError, c)))"

text \<open>\<^verbatim>\<open>section.content.currentQuestion++\<close> on a section object.\<close>

definition incrementQuestion :: "study_section \<Rightarrow> study_section" where
  "incrementQuestion sec =
     (case content sec of
        QuizContent qc \<Rightarrow>
          sec\<lparr>content := QuizContent (qc\<lparr>currentQuestion := currentQuestion qc + 1\<rparr>)\<rparr>
      | _ \<Rightarrow> sec)"

text \<open>
  The click handler of \<^verbatim>\<open>#next-quiz-question\<close> (lines 654-661), the next-question
  action of the specification. The button is in the container only in a feedback view;
  the handler reads the section it closed over.
\<close>

definition advanceQuizQuestion :: "controller \<Rightarrow> signal result" where
  "advanceQuizQuestion c =
     (case container c of
        Some (QuizFeedbackView k) \<Rightarrow>
          (case at_index (sections c) k of
             None \<Rightarrow> (Inl TypeError, c)
           | Some sec \<Rightarrow>
               (case content sec of
                  QuizContent qc \<Rightarrow>
                    (if currentQuestion qc < int (length (questions qc)) - 1
                     then (case renderSection (updateSection k incrementQuestion c) of
                             (Inl e, c') \<Rightarrow> (Inl e, c')
                           | (Inr u, c') \<Rightarrow> (Inr NextQuestion, c'))
                     else showQuizResults c)
                | _ \<Rightarrow> (Inl TypeError, c)))
      | _ \<Rightarrow> (Inl NoSuchControl, c))"

text \<open>\<^verbatim>\<open>setOnComplete\<close> (lines 779-781).\<close>

definition setOnComplete :: "handler option \<Rightarrow> controller \<Rightarrow> signal result" where
  "setOnComplete callback c = (Inr Done, c\<lparr>onComplete := callback\<rparr>)"

text \<open>
  The calls a controller receives, one after the other. An exception ends a call, not
  the page: the next call finds the state the failed one left.
\<close>

datatype operation =
    Render
  | NextSection
  | PrevSection
  | SubmitQuizAnswer string
  | AdvanceQuizQuestion
  | SetOnComplete "handler option"

fun step :: "operation \<Rightarrow> controller \<Rightarrow> signal result" where
  "step Render c = render c"
| "step NextSection c = nextSection c"
| "step PrevSection c = prevSection c"
| "step (SubmitQuizAnswer a) c = submitQuizAnswer a c"
| "step AdvanceQuizQuestion c = advanceQuizQuestion c"
| "step (SetOnComplete h) c = setOnComplete h c"

fun run :: "operation list \<Rightarrow> controller \<Rightarrow> controller" where
  "run [] c = c"
| "run (x # xs) c = run xs (snd (step x c))"

text \<open>The signals of the calls of a run, in order.\<close>

fun signals :: "operation list \<Rightarrow> controller \<Rightarrow> (error + signal) list" where
  "signals [] c = []"
| "signals (x # xs) c = fst (step x c) # signals xs (snd (step x c))"

section \<open>Calls that overlap\<close>

text \<open>
  \<^verbatim>\<open>nextSection\<close> and \<^verbatim>\<open>prevSection\<close> are \<^verbatim>\<open>async\<close>. A call runs the bounds guard
  (line 98, line 113) and, when the guard lets it pass, starts the fade-out and is
  suspended at \<^verbatim>\<open>await this.fadeOut()\<close>; the rest of its body (lines 105-106, lines
  115-116) writes the index and fades in only when the fade-out has settled. Until then
  the page takes other calls: the click listeners of lines 215 and 220 stay attached
  during the fade, and nothing records that a call is under way. A page is a controller
  together with the suspended calls, oldest first; fade-outs take the same time, so they
  settle in the order in which they were started. The other methods run to their end at
  once.
\<close>

datatype continuation = ResumeNext | ResumePrev

type_synonym page = "controller \<times> continuation list"

text \<open>The part of a call up to its first \<^verbatim>\<open>await\<close>.\<close>

fun start :: "operation \<Rightarrow> page \<Rightarrow> page" where
  "start NextSection (c, ks) =
     (if currentSectionIndex c \<ge> int (length (sections c)) - 1
      then (c, ks)
      else (snd (fadeOut c), ks @ [ResumeNext]))"
| "start PrevSection (c, ks) =
     (if currentSectionIndex c \<le> 0
      then (c, ks)
      else (snd (fadeOut c), ks @ [ResumePrev]))"
| "start x (c, ks) = (snd (step x c), ks)"

text \<open>The part of a call after \<^verbatim>\<open>await this.fadeOut()\<close>.\<close>

fun resume :: "continuation \<Rightarrow> controller \<Rightarrow> controller" where
  "resume ResumeNext c = snd (fadeIn (c\<lparr>currentSectionIndex := currentSectionIndex c + 1\<rparr>))"
| "resume ResumePrev c = snd (fadeIn (c\<lparr>currentSectionIndex := currentSectionIndex c - 1\<rparr>))"

text \<open>
  What happens on a page: a call is started, or the oldest pending fade-out settles and
  its call goes on (nothing happens when no call is suspended).
\<close>

datatype event = Start operation | Settle

fun fire :: "event \<Rightarrow> page \<Rightarrow> page" where
  "fire (Start x) p = start x p"
| "fire Settle (c, []) = (c, [])"
| "fire Settle (c, k # ks) = (resume k c, ks)"

fun play :: "event list \<Rightarrow> page \<Rightarrow> page" where
  "play [] p = p"
| "play (e # es) p = play es (fire e p)"

text \<open>No call of the schedule is started while another call is suspended.\<close>

fun no_overlap :: "event list \<Rightarrow> page \<Rightarrow> bool" where
  "no_overlap [] p = True"
| "no_overlap (Start x # es) p = (snd p = [] \<and> no_overlap es (start x p))"
| "no_overlap (Settle # es) p = no_overlap es (fire Settle p)"

text \<open>The schedule that takes the calls one after the other, each to its end.\<close>

fun sequential :: "operation list \<Rightarrow> event list" where
  "sequential [] = []"
| "sequential (x # xs) = Start x # Settle # sequential xs"

text \<open>
  Between calls that do not overlap at most one call is suspended, and its guard still
  holds of the controller.
\<close>

fun settled :: "page \<Rightarrow> bool" where
  "settled (c, []) =
     (0 \<le> currentSectionIndex c \<and> currentSectionIndex c < int (length (sections c)))"
| "settled (c, [ResumeNext]) =
     (0 \<le> currentSectionIndex c \<and> currentSectionIndex c < int (length (sections c)) - 1)"
| "settled (c, [ResumePrev]) =
     (0 < currentSectionIndex c \<and> currentSectionIndex c < int (length (sections c)))"
| "settled (c, k # k' # ks) = False"

section \<open>Observations of a controller\<close>

text \<open>The quiz section of a controller, its running state and its forward button.\<close>

definition quizSection :: "controller \<Rightarrow> study_section option" where
  "quizSection c = find (\<lambda>s. section_type s = Quiz) (sections c)"

definition quizState :: "controller \<Rightarrow> quiz_content option" where
  "quizState c =
     (case quizSection c of
        None \<Rightarrow> None
      | Some s \<Rightarrow> (case content s of QuizContent qc \<Rightarrow> Some qc | _ \<Rightarrow> None))"

definition quizScore :: "controller \<Rightarrow> int" where
  "quizScore c = (case quizState c of None \<Rightarrow> 0 | Some qc \<Rightarrow> score qc)"

definition quizTotal :: "controller \<Rightarrow> nat" where
  "quizTotal c = (case quizState c of None \<Rightarrow> 0 | Some qc \<Rightarrow> length (questions qc))"

definition quizEnabled :: "controller \<Rightarrow> bool" where
  "quizEnabled c = (case quizSection c of None \<Rightarrow> False | Some s \<Rightarrow> enabled (next_button s))"

text \<open>
  The question indices graded in the course of a run, in order: one entry for every
  \<^verbatim>\<open>submitQuizAnswer\<close> call that reaches the grading.
\<close>

fun gradedQuestions :: "operation list \<Rightarrow> controller \<Rightarrow> int list" where
  "gradedQuestions [] c = []"
| "gradedQuestions (SubmitQuizAnswer a # xs) c =
     (case currentQuestionOf c of None \<Rightarrow> [] | Some (i, q) \<Rightarrow> [i])
     @ gradedQuestions xs (snd (step (SubmitQuizAnswer a) c))"
| "gradedQuestions (x # xs) c = gradedQuestions xs (snd (step x c))"

text \<open>Whether a call grades an answer as correct in a state.\<close>

fun gradesCorrect :: "operation \<Rightarrow> controller \<Rightarrow> bool" where
  "gradesCorrect (SubmitQuizAnswer a) c =
     (case currentQuestionOf c of None \<Rightarrow> False | Some (i, q) \<Rightarrow> isCorrect q a)"
| "gradesCorrect x c = False"

section \<open>The grading rules in the words of the specification\<close>

text \<open>
  Multiple choice: the candidate equals the correct answer, surrounding whitespace
  trimmed, case-insensitively.
\<close>

definition multipleChoiceRule :: "string \<Rightarrow> string \<Rightarrow> bool" where
  "multipleChoiceRule candidate correctAnswer =
     (toLowerCase (trim candidate) = toLowerCase (trim correctAnswer))"

text \<open>
  Short answer: after case-insensitive trimming, the candidate is a substring of the
  correct answer or the correct answer is a substring of the candidate.
\<close>

definition shortAnswerRule :: "string \<Rightarrow> string \<Rightarrow> bool" where
  "shortAnswerRule candidate correctAnswer =
     (sublist (toLowerCase (trim candidate)) (toLowerCase (trim correctAnswer))
      \<or> sublist (toLowerCase (trim correctAnswer)) (toLowerCase (trim candidate)))"

section \<open>The shape of the sections of a running controller\<close>

text \<open>
  The sections without the quiz section, the number of questions of the quiz section,
  and the quiz section in a given state of its three mutable fields. The sections that
  \<^verbatim>\<open>buildSections\<close> returns are \<open>plainSections d @ quizPart d 0 0 False\<close>, and a call only
  ever writes the three fields.
\<close>

definition plainSections :: "study_plan \<Rightarrow> study_section list" where
  "plainSections d = filter (\<lambda>s. section_type s \<noteq> Quiz) (buildSections d)"

definition quizLength :: "study_plan \<Rightarrow> nat" where
  "quizLength d = length (take 3 (quizQuestionsOf d))"

definition quizSectionWith :: "study_plan \<Rightarrow> int \<Rightarrow> int \<Rightarrow> bool \<Rightarrow> study_section" where
  "quizSectionWith d cq sc en =
     \<lparr>title = ''Test Your Understanding'',
      section_type = Quiz,
      content = QuizContent
        \<lparr>questions = take 3 (quizQuestionsOf d), currentQuestion = cq, score = sc\<rparr>,
      next_button = \<lparr>button_text = ''Finish Section'', enabled = en\<rparr>\<rparr>"

definition quizPart :: "study_plan \<Rightarrow> int \<Rightarrow> int \<Rightarrow> bool \<Rightarrow> study_section list" where
  "quizPart d cq sc en =
     (if quizQuestionsOf d = [] then [] else [quizSectionWith d cq sc en])"

text \<open>Whether the quiz has been finalized in the course of a run, read off its signals.\<close>

fun isFinished :: "error + signal \<Rightarrow> bool" where
  "isFinished (Inr (QuizFinished sc tot p)) = True"
| "isFinished x = False"

definition finished :: "(error + signal) list \<Rightarrow> bool" where
  "finished S = list_ex isFinished S"

text \<open>
  What holds of a controller \<open>c\<close> made from the document \<open>d\<close> after a run that graded
  the question indices \<open>G\<close> and gave the signals \<open>S\<close>: its sections have the shape, with
  the forward button of the quiz enabled exactly when the quiz has been finalized; the
  section index and the question index are in range; the score is at most the number
  of gradings; the questions before the current one have been graded, and so has the
  current one while its feedback is shown; the feedback is shown only on the quiz
  section; a finalized quiz has had all its questions graded; and every finalization
  reported the number of questions and the percentage of a score that the run could
  have reached.
\<close>

definition reachable ::
  "study_plan \<Rightarrow> controller \<Rightarrow> int list \<Rightarrow> (error + signal) list \<Rightarrow> bool" where
  "reachable d c G S =
     (\<exists>cq sc.
        sections c = plainSections d @ quizPart d cq sc (finished S)
      \<and> 0 \<le> currentSectionIndex c
      \<and> currentSectionIndex c < int (length (sections c))
      \<and> 0 \<le> cq
      \<and> (quizQuestionsOf d \<noteq> [] \<longrightarrow> cq < int (quizLength d))
      \<and> 0 \<le> sc
      \<and> sc \<le> int (length G)
      \<and> length G \<le> length S
      \<and> (\<forall>i \<in> set G. 0 \<le> i \<and> i < int (quizLength d))
      \<and> (\<forall>i. 0 \<le> i \<and> i < cq \<longrightarrow> i \<in> set G)
      \<and> (\<forall>k. container c = Some (QuizFeedbackView k) \<longrightarrow>
             quizQuestionsOf d \<noteq> [] \<and> k = int (length (plainSections d))
             \<and> currentSectionIndex c = k \<and> cq \<in> set G)
      \<and> (finished S \<longrightarrow>
             quizQuestionsOf d \<noteq> []
             \<and> (\<forall>i. 0 \<le> i \<and> i < int (quizLength d) \<longrightarrow> i \<in> set G))
      \<and> (\<forall>sc' t p. Inr (QuizFinished sc' t p) \<in> set S \<longrightarrow>
             t = quizLength d \<and> 0 < t \<and> p = percentage sc' t
             \<and> 0 \<le> sc' \<and> sc' \<le> int (length S)))"

section \<open>Sample documents\<close>

definition capitalQuestion :: quiz_question where
  "capitalQuestion =
     \<lparr>question = ''What is the capital of France?'',
      question_type = ''multiple_choice'',
      options = Some [''Paris'', ''Rome'', ''Madrid''],
      answer = ''paris'',
      difficulty_rating = Some 1\<rparr>"

definition cellQuestion :: quiz_question where
  "cellQuestion =
     \<lparr>question = ''Which organelle is the powerhouse of the cell?'',
      question_type = ''short_answer'',
      options = None,
      answer = ''mitochondria'',
      difficulty_rating = None\<rparr>"

definition paddedCellQuestion :: quiz_question where
  "paddedCellQuestion = cellQuestion\<lparr>answer := ''mitochondria ''\<rparr>"

definition paddedAnswerPlan :: study_plan where
  "paddedAnswerPlan =
     \<lparr>summary = Some ''Cells'', concept_map = None, learning_objectives = None,
      worked_examples = None, active_recall = Some [paddedCellQuestion]\<rparr>"

definition summaryOnlyPlan :: study_plan where
  "summaryOnlyPlan =
     \<lparr>summary = Some ''Cells'', concept_map = None, learning_objectives = None,
      worked_examples = None, active_recall = None\<rparr>"

definition oneQuestionPlan :: study_plan where
  "oneQuestionPlan = summaryOnlyPlan\<lparr>active_recall := Some [capitalQuestion]\<rparr>"

definition twoQuestionPlan :: study_plan where
  "twoQuestionPlan = summaryOnlyPlan\<lparr>active_recall := Some [capitalQuestion, cellQuestion]\<rparr>"

definition threeQuestionPlan :: study_plan where
  "threeQuestionPlan =
     summaryOnlyPlan\<lparr>active_recall := Some [capitalQuestion, cellQuestion, capitalQuestion]\<rparr>"

section \<open>Verified properties\<close>

subsection \<open>Section construction\<close>

lemma quizQuestionLists_append:
  "quizQuestionLists (xs @ ys) = quizQuestionLists xs @ quizQuestionLists ys"
  by (induction xs) (auto split: content.splits)

text \<open>
  Claim C1. For every study plan, the kinds of the built sections are Explanation, then
  Example exactly when the worked examples are non-empty, then Quiz exactly when the quiz
  questions are non-empty, in this order; the Explanation section is first; and the one
  quiz section, when there is one, is the last section and holds the first
  \<open>min 3 len\<close> questions of the input in their order, at question 0 with score 0.
\<close>

theorem buildSections_reference:
  "map section_type (buildSections d) =
     [Explanation]
     @ (if workedExamplesOf d = [] then [] else [Example])
     @ (if quizQuestionsOf d = [] then [] else [Quiz])
   \<and> section_type (hd (buildSections d)) = Explanation
   \<and> ((Example \<in> set (map section_type (buildSections d))) = (workedExamplesOf d \<noteq> []))
   \<and> ((Quiz \<in> set (map section_type (buildSections d))) = (quizQuestionsOf d \<noteq> []))
   \<and> quizQuestionLists (buildSections d) =
     (if quizQuestionsOf d = [] then []
      else [take (min 3 (length (quizQuestionsOf d))) (quizQuestionsOf d)])
   \<and> (if quizQuestionsOf d = [] then True
      else content (last (buildSections d)) =
        QuizContent \<lparr>questions = take (min 3 (length (quizQuestionsOf d))) (quizQuestionsOf d),
                     currentQuestion = 0, score = 0\<rparr>)"
  by (auto simp: buildSections_def workedExamplesOf_def quizQuestionsOf_def Let_def
        quizQuestionLists_append min_def split: option.splits)

subsection \<open>Navigation\<close>

lemma renderSection_frame:
  "currentSectionIndex (snd (renderSection c)) = currentSectionIndex c"
  "sections (snd (renderSection c)) = sections c"
  "onComplete (snd (renderSection c)) = onComplete c"
  "data (snd (renderSection c)) = data c"
  by (simp_all add: renderSection_def split: option.splits section_kind.splits content.splits)

lemma fadeIn_frame:
  "currentSectionIndex (snd (fadeIn c)) = currentSectionIndex c"
  "sections (snd (fadeIn c)) = sections c"
  "onComplete (snd (fadeIn c)) = onComplete c"
  "data (snd (fadeIn c)) = data c"
  by (simp_all add: fadeIn_def renderSection_frame split: option.splits)

lemma nextSection_sections: "sections (snd (nextSection c)) = sections c"
  by (cases "fadeIn (c\<lparr>currentSectionIndex := currentSectionIndex c + 1\<rparr>)")
     (use fadeIn_frame(2)[of "c\<lparr>currentSectionIndex := currentSectionIndex c + 1\<rparr>"] in
      \<open>auto simp: nextSection_def fadeOut_def Let_def split: sum.splits\<close>)

lemma nextSection_index:
  "currentSectionIndex (snd (nextSection c)) =
     (if currentSectionIndex c \<ge> int (length (sections c)) - 1 then currentSectionIndex c
      else currentSectionIndex c + 1)"
  by (cases "fadeIn (c\<lparr>currentSectionIndex := currentSectionIndex c + 1\<rparr>)")
     (use fadeIn_frame(1)[of "c\<lparr>currentSectionIndex := currentSectionIndex c + 1\<rparr>"] in
      \<open>auto simp: nextSection_def fadeOut_def Let_def split: sum.splits\<close>)

lemma prevSection_sections: "sections (snd (prevSection c)) = sections c"
  by (cases "fadeIn (c\<lparr>currentSectionIndex := currentSectionIndex c - 1\<rparr>)")
     (use fadeIn_frame(2)[of "c\<lparr>currentSectionIndex := currentSectionIndex c - 1\<rparr>"] in
      \<open>auto simp: prevSection_def fadeOut_def Let_def split: sum.splits\<close>)

lemma prevSection_index:
  "currentSectionIndex (snd (prevSection c)) =
     (if currentSectionIndex c \<le> 0 then currentSectionIndex c
      else currentSectionIndex c - 1)"
  by (cases "fadeIn (c\<lparr>currentSectionIndex := currentSectionIndex c - 1\<rparr>)")
     (use fadeIn_frame(1)[of "c\<lparr>currentSectionIndex := currentSectionIndex c - 1\<rparr>"] in
      \<open>auto simp: prevSection_def fadeOut_def Let_def split: sum.splits\<close>)

lemma prevSection_signal:
  "0 < currentSectionIndex c \<Longrightarrow> fst (prevSection c) \<noteq> Inr NoOp"
  by (cases "fadeIn (c\<lparr>currentSectionIndex := currentSectionIndex c - 1\<rparr>)")
     (auto simp: prevSection_def fadeOut_def Let_def split: sum.splits)

text \<open>
  Claim C3. At section index 0 \<^verbatim>\<open>prevSection\<close> changes nothing at all and signals
  \<open>NoOp\<close>; at a positive index it lowers the index by exactly one, the result is not
  negative, the sections are untouched and the call is not a no-op.
\<close>

theorem prevSection_retreat:
  "(currentSectionIndex c = 0 \<longrightarrow> prevSection c = (Inr NoOp, c))
   \<and> (0 < currentSectionIndex c \<longrightarrow>
        currentSectionIndex (snd (prevSection c)) = currentSectionIndex c - 1
        \<and> 0 \<le> currentSectionIndex (snd (prevSection c))
        \<and> sections (snd (prevSection c)) = sections c
        \<and> fst (prevSection c) \<noteq> Inr NoOp)"
proof (intro conjI impI)
  assume "currentSectionIndex c = 0"
  then show "prevSection c = (Inr NoOp, c)"
    by (simp add: prevSection_def)
next
  assume pos: "0 < currentSectionIndex c"
  then show "currentSectionIndex (snd (prevSection c)) = currentSectionIndex c - 1"
    by (simp add: prevSection_index)
  from pos show "0 \<le> currentSectionIndex (snd (prevSection c))"
    by (simp add: prevSection_index)
  show "sections (snd (prevSection c)) = sections c"
    by (rule prevSection_sections)
  from pos show "fst (prevSection c) \<noteq> Inr NoOp"
    by (rule prevSection_signal)
qed

theorem prevSection_retreat_witness:
  "currentSectionIndex (SequentialStudy twoQuestionPlan) = 0
   \<and> prevSection (SequentialStudy twoQuestionPlan) = (Inr NoOp, SequentialStudy twoQuestionPlan)
   \<and> 0 < currentSectionIndex (snd (nextSection (SequentialStudy twoQuestionPlan)))
   \<and> currentSectionIndex (snd (prevSection (snd (nextSection (SequentialStudy twoQuestionPlan)))))
       = 0"
proof -
  have i0: "currentSectionIndex (SequentialStudy twoQuestionPlan) = 0"
    by (simp add: SequentialStudy_def)
  have i1: "currentSectionIndex (snd (nextSection (SequentialStudy twoQuestionPlan))) = 1"
    by (simp add: nextSection_index SequentialStudy_def buildSections_def twoQuestionPlan_def
          summaryOnlyPlan_def)
  show ?thesis
    using prevSection_retreat [of "SequentialStudy twoQuestionPlan"]
      prevSection_retreat [of "snd (nextSection (SequentialStudy twoQuestionPlan))"] i0 i1
    by simp
qed

text \<open>
  Claim C10. On the last section \<^verbatim>\<open>nextSection\<close> returns the controller as it found
  it, index and sections included; it reports the registered callback as called, and
  with no callback registered it returns normally having called nothing.
\<close>

theorem nextSection_on_last:
  "currentSectionIndex c = int (length (sections c)) - 1 \<Longrightarrow>
     nextSection c = (Inr (Completed (onComplete c)), c)
     \<and> snd (nextSection c) = c
     \<and> (onComplete c = None \<longrightarrow> fst (nextSection c) = Inr (Completed None))"
  by (simp add: nextSection_def)

theorem nextSection_on_last_witness:
  "currentSectionIndex (SequentialStudy summaryOnlyPlan)
     = int (length (sections (SequentialStudy summaryOnlyPlan))) - 1
   \<and> onComplete (SequentialStudy summaryOnlyPlan) = None
   \<and> nextSection (SequentialStudy summaryOnlyPlan)
     = (Inr (Completed None), SequentialStudy summaryOnlyPlan)"
proof -
  have h: "currentSectionIndex (SequentialStudy summaryOnlyPlan)
     = int (length (sections (SequentialStudy summaryOnlyPlan))) - 1"
    by (simp add: SequentialStudy_def buildSections_def summaryOnlyPlan_def)
  have n: "onComplete (SequentialStudy summaryOnlyPlan) = None"
    by (simp add: SequentialStudy_def)
  show ?thesis
    using nextSection_on_last [OF h] h n by simp
qed

subsection \<open>The section index stays in range\<close>

lemma updateSection_frame:
  "currentSectionIndex (updateSection k f c) = currentSectionIndex c"
  "length (sections (updateSection k f c)) = length (sections c)"
  "container (updateSection k f c) = container c"
  "onComplete (updateSection k f c) = onComplete c"
  by (simp_all add: updateSection_def)

lemma render_frame:
  "currentSectionIndex (snd (render c)) = currentSectionIndex c"
  "sections (snd (render c)) = sections c"
proof -
  obtain r c' where r: "renderSection (c\<lparr>container := Some HostView\<rparr>) = (r, c')"
    by (cases "renderSection (c\<lparr>container := Some HostView\<rparr>)")
  from renderSection_frame(1,2)[of "c\<lparr>container := Some HostView\<rparr>"] r
  have "currentSectionIndex c' = currentSectionIndex c" "sections c' = sections c"
    by simp_all
  with r show "currentSectionIndex (snd (render c)) = currentSectionIndex c"
    "sections (snd (render c)) = sections c"
    by (simp_all add: render_def split: sum.splits)
qed

lemma submitQuizAnswer_frame:
  "currentSectionIndex (snd (submitQuizAnswer a c)) = currentSectionIndex c"
  "length (sections (snd (submitQuizAnswer a c))) = length (sections c)"
  by (simp_all add: submitQuizAnswer_def Let_def updateSection_frame
        split: option.splits prod.splits view.splits)

lemma showQuizResults_frame:
  "currentSectionIndex (snd (showQuizResults c)) = currentSectionIndex c"
  "length (sections (snd (showQuizResults c))) = length (sections c)"
  by (simp_all add: showQuizResults_def Let_def updateSection_frame
        split: option.splits content.splits view.splits)

lemma advanceQuizQuestion_frame:
  "currentSectionIndex (snd (advanceQuizQuestion c)) = currentSectionIndex c"
  "length (sections (snd (advanceQuizQuestion c))) = length (sections c)"
proof -
  have a: "currentSectionIndex (snd (renderSection (updateSection k incrementQuestion c)))
             = currentSectionIndex c" for k
    by (simp add: renderSection_frame updateSection_frame)
  have b: "length (sections (snd (renderSection (updateSection k incrementQuestion c))))
             = length (sections c)" for k
    by (simp add: renderSection_frame updateSection_frame)
  have s: "snd (case p of (Inl e, c') \<Rightarrow> (Inl e, c') | (Inr u, c') \<Rightarrow> (Inr NextQuestion, c'))
             = snd p" for p :: "unit result"
    by (cases p) (auto split: sum.splits)
  show "currentSectionIndex (snd (advanceQuizQuestion c)) = currentSectionIndex c"
    by (simp add: advanceQuizQuestion_def s a showQuizResults_frame
          split: option.splits view.splits content.splits)
  show "length (sections (snd (advanceQuizQuestion c))) = length (sections c)"
    by (simp add: advanceQuizQuestion_def s b showQuizResults_frame
          split: option.splits view.splits content.splits)
qed

lemma step_length: "length (sections (snd (step x c))) = length (sections c)"
  by (cases x)
     (simp_all add: render_frame nextSection_sections prevSection_sections
        submitQuizAnswer_frame advanceQuizQuestion_frame setOnComplete_def)

lemma step_index:
  "currentSectionIndex (snd (step x c)) =
     (case x of
        NextSection \<Rightarrow>
          (if currentSectionIndex c \<ge> int (length (sections c)) - 1 then currentSectionIndex c
           else currentSectionIndex c + 1)
      | PrevSection \<Rightarrow>
          (if currentSectionIndex c \<le> 0 then currentSectionIndex c
           else currentSectionIndex c - 1)
      | _ \<Rightarrow> currentSectionIndex c)"
  by (cases x)
     (simp_all add: render_frame nextSection_index prevSection_index
        submitQuizAnswer_frame advanceQuizQuestion_frame setOnComplete_def)

lemma step_in_range:
  assumes "0 \<le> currentSectionIndex c" "currentSectionIndex c < int (length (sections c))"
  shows "0 \<le> currentSectionIndex (snd (step x c))
         \<and> currentSectionIndex (snd (step x c)) < int (length (sections (snd (step x c))))"
  using assms step_index[of x c] step_length[of x c] by (cases x) (auto split: if_splits)

lemma buildSections_nonempty: "0 < length (buildSections d)"
  by (simp add: buildSections_def Let_def split: option.splits)

lemma run_in_range:
  assumes "0 \<le> currentSectionIndex c" "currentSectionIndex c < int (length (sections c))"
  shows "0 \<le> currentSectionIndex (run xs c)
         \<and> currentSectionIndex (run xs c) < int (length (sections (run xs c)))"
  using assms
proof (induction xs arbitrary: c)
  case Nil
  then show ?case by simp
next
  case (Cons x xs)
  from step_in_range[OF Cons.prems, of x] Cons.IH[of "snd (step x c)"]
  show ?case by simp
qed

text \<open>A call taken to its end is the whole call of the sequential model.\<close>

lemma start_settle: "fire Settle (start x (c, [])) = (snd (step x c), [])"
proof (cases x)
  case NextSection
  then show ?thesis
    by (cases "fadeIn (c\<lparr>currentSectionIndex := currentSectionIndex c + 1\<rparr>)")
       (auto simp: nextSection_def fadeOut_def Let_def split: sum.splits)
next
  case PrevSection
  then show ?thesis
    by (cases "fadeIn (c\<lparr>currentSectionIndex := currentSectionIndex c - 1\<rparr>)")
       (auto simp: prevSection_def fadeOut_def Let_def split: sum.splits)
qed simp_all

lemma play_sequential: "play (sequential xs) (c, []) = (run xs c, [])"
proof (induction xs arbitrary: c)
  case Nil
  then show ?case by simp
next
  case (Cons x xs)
  have "play (sequential (x # xs)) (c, []) = play (sequential xs) (fire Settle (start x (c, [])))"
    by simp
  also have "\<dots> = play (sequential xs) (snd (step x c), [])"
    by (simp only: start_settle)
  finally show ?case
    using Cons.IH by simp
qed

lemma no_overlap_sequential: "no_overlap (sequential xs) (c, [])"
proof (induction xs arbitrary: c)
  case Nil
  then show ?case by simp
next
  case (Cons x xs)
  have "no_overlap (sequential (x # xs)) (c, [])
          = no_overlap (sequential xs) (fire Settle (start x (c, [])))"
    by simp
  also have "\<dots> = no_overlap (sequential xs) (snd (step x c), [])"
    by (simp only: start_settle)
  finally show ?case
    using Cons.IH by simp
qed

lemma settled_in_range:
  assumes "settled (c, ks)"
  shows "0 \<le> currentSectionIndex c \<and> currentSectionIndex c < int (length (sections c))"
proof (cases ks)
  case Nil
  with assms show ?thesis by simp
next
  case (Cons k ks')
  show ?thesis
  proof (cases ks')
    case Nil
    with Cons assms show ?thesis by (cases k) simp_all
  next
    case (Cons k' ks'')
    with \<open>ks = k # ks'\<close> assms show ?thesis by simp
  qed
qed

lemma settled_start:
  assumes "settled (c, [])"
  shows "settled (start x (c, []))"
proof (cases x)
  case NextSection
  with assms show ?thesis by (simp add: fadeOut_def)
next
  case PrevSection
  with assms show ?thesis by (auto simp: fadeOut_def)
next
  case Render
  with assms step_in_range[of c Render] show ?thesis by simp
next
  case (SubmitQuizAnswer a)
  with assms step_in_range[of c "SubmitQuizAnswer a"] show ?thesis by simp
next
  case AdvanceQuizQuestion
  with assms step_in_range[of c AdvanceQuizQuestion] show ?thesis by simp
next
  case (SetOnComplete h)
  with assms step_in_range[of c "SetOnComplete h"] show ?thesis by simp
qed

lemma settled_settle:
  assumes "settled p"
  shows "settled (fire Settle p)"
  using assms
proof (induction p rule: settled.induct)
  case (1 c)
  then show ?case by simp
next
  case (2 c)
  then show ?case by (simp add: fadeIn_frame)
next
  case (3 c)
  then show ?case by (simp add: fadeIn_frame)
next
  case (4 c k k' ks)
  then show ?case by simp
qed

lemma settled_play:
  assumes "settled p" "no_overlap es p"
  shows "settled (play es p)"
  using assms
proof (induction es arbitrary: p)
  case Nil
  then show ?case by simp
next
  case (Cons e es)
  show ?case
  proof (cases e)
    case (Start x)
    with Cons.prems obtain c where p: "p = (c, [])" and rest: "no_overlap es (start x p)"
      by (cases p) auto
    from Cons.prems(1) p have "settled (start x p)"
      by (simp add: settled_start)
    from Cons.IH[OF this rest] Start show ?thesis by simp
  next
    case Settle
    with Cons.prems have rest: "no_overlap es (fire Settle p)"
      by simp
    from Cons.IH[OF settled_settle[OF Cons.prems(1)] rest] Settle show ?thesis by simp
  qed
qed

text \<open>
  Claim C9, as the code has it. The section index of a new controller is 0 and below
  the number of sections. Every call, taken from its start to its end, keeps
  \<open>0 \<le> currentSectionIndex < length sections\<close> from any state in which it holds. So the
  bounds hold, and \<^verbatim>\<open>getCurrentSection\<close> returns the section at the index and never
  \<^verbatim>\<open>null\<close>, at every moment of every schedule on a new controller in which no call is
  started while a \<^verbatim>\<open>nextSection\<close> or \<^verbatim>\<open>prevSection\<close> is suspended in its fade-out; the
  calls taken one after the other are such a schedule.
\<close>

theorem index_in_range:
  "0 \<le> currentSectionIndex (SequentialStudy d)
   \<and> currentSectionIndex (SequentialStudy d) < int (length (sections (SequentialStudy d)))
   \<and> (\<forall>x c. 0 \<le> currentSectionIndex c \<and> currentSectionIndex c < int (length (sections c))
        \<longrightarrow> 0 \<le> currentSectionIndex (snd (step x c))
          \<and> currentSectionIndex (snd (step x c)) < int (length (sections (snd (step x c)))))
   \<and> (\<forall>es. no_overlap es (SequentialStudy d, []) \<longrightarrow>
          0 \<le> currentSectionIndex (fst (play es (SequentialStudy d, [])))
        \<and> currentSectionIndex (fst (play es (SequentialStudy d, [])))
            < int (length (sections (fst (play es (SequentialStudy d, [])))))
        \<and> getCurrentSection (fst (play es (SequentialStudy d, [])))
            = Some (sections (fst (play es (SequentialStudy d, [])))
                     ! nat (currentSectionIndex (fst (play es (SequentialStudy d, []))))))
   \<and> (\<forall>xs. no_overlap (sequential xs) (SequentialStudy d, [])
        \<and> play (sequential xs) (SequentialStudy d, []) = (run xs (SequentialStudy d), [])
        \<and> 0 \<le> currentSectionIndex (run xs (SequentialStudy d))
        \<and> currentSectionIndex (run xs (SequentialStudy d))
            < int (length (sections (run xs (SequentialStudy d))))
        \<and> getCurrentSection (run xs (SequentialStudy d))
            = Some (sections (run xs (SequentialStudy d))
                     ! nat (currentSectionIndex (run xs (SequentialStudy d)))))
   \<and> (\<forall>c. 0 \<le> currentSectionIndex c \<and> currentSectionIndex c < int (length (sections c))
        \<longrightarrow> getCurrentSection c = Some (sections c ! nat (currentSectionIndex c)))"
proof -
  have init: "0 \<le> currentSectionIndex (SequentialStudy d)
     \<and> currentSectionIndex (SequentialStudy d) < int (length (sections (SequentialStudy d)))"
    using buildSections_nonempty[of d] by (simp add: SequentialStudy_def)
  have cur: "getCurrentSection c = Some (sections c ! nat (currentSectionIndex c))"
    if "0 \<le> currentSectionIndex c \<and> currentSectionIndex c < int (length (sections c))" for c
    using that by (simp add: getCurrentSection_def at_index_def)
  have runs: "0 \<le> currentSectionIndex (run xs (SequentialStudy d))
        \<and> currentSectionIndex (run xs (SequentialStudy d))
            < int (length (sections (run xs (SequentialStudy d))))" for xs
    using run_in_range[of "SequentialStudy d" xs] init by simp
  have plays: "0 \<le> currentSectionIndex (fst (play es (SequentialStudy d, [])))
        \<and> currentSectionIndex (fst (play es (SequentialStudy d, [])))
            < int (length (sections (fst (play es (SequentialStudy d, [])))))"
    if "no_overlap es (SequentialStudy d, [])" for es
  proof -
    from init have "settled (SequentialStudy d, [])"
      by simp
    from settled_play[OF this that] have "settled (play es (SequentialStudy d, []))" .
    then show ?thesis
      using settled_in_range[of "fst (play es (SequentialStudy d, []))"
          "snd (play es (SequentialStudy d, []))"]
      by simp
  qed
  have seqs: "no_overlap (sequential xs) (SequentialStudy d, [])
        \<and> play (sequential xs) (SequentialStudy d, []) = (run xs (SequentialStudy d), [])" for xs
    by (simp add: no_overlap_sequential play_sequential)
  have B: "\<forall>x c. 0 \<le> currentSectionIndex c \<and> currentSectionIndex c < int (length (sections c))
        \<longrightarrow> 0 \<le> currentSectionIndex (snd (step x c))
          \<and> currentSectionIndex (snd (step x c)) < int (length (sections (snd (step x c))))"
    using step_in_range by blast
  have C: "\<forall>es. no_overlap es (SequentialStudy d, []) \<longrightarrow>
          0 \<le> currentSectionIndex (fst (play es (SequentialStudy d, [])))
        \<and> currentSectionIndex (fst (play es (SequentialStudy d, [])))
            < int (length (sections (fst (play es (SequentialStudy d, [])))))
        \<and> getCurrentSection (fst (play es (SequentialStudy d, [])))
            = Some (sections (fst (play es (SequentialStudy d, [])))
                     ! nat (currentSectionIndex (fst (play es (SequentialStudy d, [])))))"
  proof (intro allI impI)
    fix es
    assume "no_overlap es (SequentialStudy d, [])"
    from plays[OF this] cur[OF plays[OF this]]
    show "0 \<le> currentSectionIndex (fst (play es (SequentialStudy d, [])))
        \<and> currentSectionIndex (fst (play es (SequentialStudy d, [])))
            < int (length (sections (fst (play es (SequentialStudy d, [])))))
        \<and> getCurrentSection (fst (play es (SequentialStudy d, [])))
            = Some (sections (fst (play es (SequentialStudy d, [])))
                     ! nat (currentSectionIndex (fst (play es (SequentialStudy d, [])))))"
      by simp
  qed
  have D: "\<forall>xs. no_overlap (sequential xs) (SequentialStudy d, [])
        \<and> play (sequential xs) (SequentialStudy d, []) = (run xs (SequentialStudy d), [])
        \<and> 0 \<le> currentSectionIndex (run xs (SequentialStudy d))
        \<and> currentSectionIndex (run xs (SequentialStudy d))
            < int (length (sections (run xs (SequentialStudy d))))
        \<and> getCurrentSection (run xs (SequentialStudy d))
            = Some (sections (run xs (SequentialStudy d))
                     ! nat (currentSectionIndex (run xs (SequentialStudy d))))"
  proof
    fix xs
    from seqs[of xs] runs[of xs] cur[OF runs[of xs]]
    show "no_overlap (sequential xs) (SequentialStudy d, [])
        \<and> play (sequential xs) (SequentialStudy d, []) = (run xs (SequentialStudy d), [])
        \<and> 0 \<le> currentSectionIndex (run xs (SequentialStudy d))
        \<and> currentSectionIndex (run xs (SequentialStudy d))
            < int (length (sections (run xs (SequentialStudy d))))
        \<and> getCurrentSection (run xs (SequentialStudy d))
            = Some (sections (run xs (SequentialStudy d))
                     ! nat (currentSectionIndex (run xs (SequentialStudy d))))"
      by simp
  qed
  have E: "\<forall>c. 0 \<le> currentSectionIndex c \<and> currentSectionIndex c < int (length (sections c))
        \<longrightarrow> getCurrentSection c = Some (sections c ! nat (currentSectionIndex c))"
    using cur by blast
  from init have i1: "0 \<le> currentSectionIndex (SequentialStudy d)"
    and i2: "currentSectionIndex (SequentialStudy d) < int (length (sections (SequentialStudy d)))"
    by simp_all
  show ?thesis
    by (rule conjI[OF i1 conjI[OF i2 conjI[OF B conjI[OF C conjI[OF D E]]]]])
qed

theorem index_in_range_witness:
  "0 \<le> currentSectionIndex (SequentialStudy twoQuestionPlan)
   \<and> currentSectionIndex (SequentialStudy twoQuestionPlan)
       < int (length (sections (SequentialStudy twoQuestionPlan)))
   \<and> currentSectionIndex (snd (step NextSection (SequentialStudy twoQuestionPlan)))
       < int (length (sections (snd (step NextSection (SequentialStudy twoQuestionPlan)))))
   \<and> no_overlap [Start Render, Start NextSection, Settle, Start NextSection, Settle,
                  Start PrevSection]
        (SequentialStudy twoQuestionPlan, [])
   \<and> getCurrentSection
        (fst (play [Start Render, Start NextSection, Settle, Start NextSection, Settle,
                    Start PrevSection]
                (SequentialStudy twoQuestionPlan, [])))
       = Some (sections
                 (fst (play [Start Render, Start NextSection, Settle, Start NextSection, Settle,
                             Start PrevSection]
                         (SequentialStudy twoQuestionPlan, [])))
               ! nat (currentSectionIndex
                        (fst (play [Start Render, Start NextSection, Settle, Start NextSection,
                                    Settle, Start PrevSection]
                                (SequentialStudy twoQuestionPlan, [])))))
   \<and> getCurrentSection (run [NextSection, NextSection, PrevSection]
                           (SequentialStudy twoQuestionPlan))
       = Some (sections (run [NextSection, NextSection, PrevSection]
                           (SequentialStudy twoQuestionPlan))
                ! nat (currentSectionIndex (run [NextSection, NextSection, PrevSection]
                                              (SequentialStudy twoQuestionPlan))))"
proof -
  have h: "no_overlap [Start Render, Start NextSection, Settle, Start NextSection, Settle,
                       Start PrevSection]
             (SequentialStudy twoQuestionPlan, [])"
    by code_simp
  show ?thesis
    using index_in_range [of twoQuestionPlan] h by blast
qed

text \<open>
  The claim C9 as it is stated fails: \<^verbatim>\<open>nextSection\<close> checks its guard before the
  fade-out and writes the index after it. On a page of two sections a second
  \<^verbatim>\<open>nextSection\<close>, started while the first is fading out, passes the same guard; when
  both have gone on the index is 2 and \<^verbatim>\<open>getCurrentSection\<close> returns \<^verbatim>\<open>null\<close>.
\<close>

theorem overlapping_calls_counterexample:
  "\<not> no_overlap [Start Render, Start NextSection, Start NextSection, Settle, Settle]
        (SequentialStudy twoQuestionPlan, [])
   \<and> length (sections
        (fst (play [Start Render, Start NextSection, Start NextSection, Settle, Settle]
                (SequentialStudy twoQuestionPlan, [])))) = 2
   \<and> currentSectionIndex
        (fst (play [Start Render, Start NextSection, Start NextSection, Settle, Settle]
                (SequentialStudy twoQuestionPlan, []))) = 2
   \<and> \<not> currentSectionIndex
          (fst (play [Start Render, Start NextSection, Start NextSection, Settle, Settle]
                  (SequentialStudy twoQuestionPlan, [])))
        < int (length (sections
            (fst (play [Start Render, Start NextSection, Start NextSection, Settle, Settle]
                    (SequentialStudy twoQuestionPlan, [])))))
   \<and> getCurrentSection
        (fst (play [Start Render, Start NextSection, Start NextSection, Settle, Settle]
                (SequentialStudy twoQuestionPlan, []))) = None
   \<and> snd (play [Start Render, Start NextSection, Start NextSection, Settle, Settle]
            (SequentialStudy twoQuestionPlan, [])) = []"
  by code_simp

subsection \<open>Walking forward through the sections\<close>

lemma buildSections_shape: "buildSections d = plainSections d @ quizPart d 0 0 False"
  by (simp add: plainSections_def quizPart_def quizSectionWith_def buildSections_def
        quizQuestionsOf_def Let_def split: option.splits)

lemma plainSections_no_quiz: "s \<in> set (plainSections d) \<Longrightarrow> section_type s \<noteq> Quiz"
  by (simp add: plainSections_def)

lemma plainSections_nonempty: "0 < length (plainSections d)"
  by (simp add: plainSections_def buildSections_def Let_def split: option.splits)

lemma quizPart_length: "length (quizPart d cq sc en) = (if quizQuestionsOf d = [] then 0 else 1)"
  by (simp add: quizPart_def)

lemma quizLength_pos: "quizQuestionsOf d \<noteq> [] \<Longrightarrow> 0 < quizLength d"
  by (cases "quizQuestionsOf d") (simp_all add: quizLength_def)

lemma quizLength_le: "quizLength d \<le> 3"
  by (simp add: quizLength_def)

text \<open>The current section of a controller whose sections have the shape.\<close>

lemma current_plain:
  assumes "sections c = plainSections d @ quizPart d cq sc en"
    and "0 \<le> currentSectionIndex c"
    and "currentSectionIndex c < int (length (plainSections d))"
  shows "getCurrentSection c = Some (plainSections d ! nat (currentSectionIndex c))"
    and "section_type (plainSections d ! nat (currentSectionIndex c)) \<noteq> Quiz"
proof -
  from assms show "getCurrentSection c = Some (plainSections d ! nat (currentSectionIndex c))"
    by (simp add: getCurrentSection_def at_index_def nth_append)
  from assms have "plainSections d ! nat (currentSectionIndex c) \<in> set (plainSections d)"
    by simp
  then show "section_type (plainSections d ! nat (currentSectionIndex c)) \<noteq> Quiz"
    by (rule plainSections_no_quiz)
qed

lemma current_quiz:
  assumes "sections c = plainSections d @ quizPart d cq sc en"
    and "currentSectionIndex c = int (length (plainSections d))"
    and "quizQuestionsOf d \<noteq> []"
  shows "getCurrentSection c = Some (quizSectionWith d cq sc en)"
  using assms by (simp add: getCurrentSection_def at_index_def nth_append quizPart_def)

lemma index_cases:
  assumes "sections c = plainSections d @ quizPart d cq sc en"
    and "0 \<le> currentSectionIndex c"
    and "currentSectionIndex c < int (length (sections c))"
  shows "currentSectionIndex c < int (length (plainSections d))
         \<or> (currentSectionIndex c = int (length (plainSections d)) \<and> quizQuestionsOf d \<noteq> [])"
  using assms by (auto simp: quizPart_length split: if_splits)

lemma renderSection_shaped:
  assumes sh: "sections c = plainSections d @ quizPart d cq sc en"
    and lo: "0 \<le> currentSectionIndex c"
    and hi: "currentSectionIndex c < int (length (sections c))"
    and cq: "0 \<le> cq" "quizQuestionsOf d \<noteq> [] \<longrightarrow> cq < int (quizLength d)"
  shows "renderSection c =
           (Inr (),
            c\<lparr>container :=
                 (case container c of
                    None \<Rightarrow> None
                  | Some v \<Rightarrow>
                      Some (if currentSectionIndex c = int (length (plainSections d))
                            then QuizQuestionView else SectionView))\<rparr>)"
proof (cases "container c")
  case None
  then show ?thesis by (simp add: renderSection_def)
next
  case (Some v)
  from index_cases[OF sh lo hi] show ?thesis
  proof
    assume less: "currentSectionIndex c < int (length (plainSections d))"
    from current_plain[OF sh lo less] Some less show ?thesis
      by (simp add: renderSection_def split: section_kind.splits)
  next
    assume eq: "currentSectionIndex c = int (length (plainSections d)) \<and> quizQuestionsOf d \<noteq> []"
    with cq have "at_index (take 3 (quizQuestionsOf d)) cq \<noteq> None"
      by (simp add: at_index_def quizLength_def)
    with current_quiz[OF sh] eq Some show ?thesis
      by (auto simp: renderSection_def quizSectionWith_def)
  qed
qed


lemma nextSection_shaped:
  assumes sh: "sections c = plainSections d @ quizPart d cq sc en"
    and lo: "0 \<le> currentSectionIndex c"
    and hi: "currentSectionIndex c < int (length (sections c)) - 1"
    and cq: "0 \<le> cq" "quizQuestionsOf d \<noteq> [] \<longrightarrow> cq < int (quizLength d)"
  shows "nextSection c =
           (Inr Advanced,
            c\<lparr>currentSectionIndex := currentSectionIndex c + 1,
              container :=
                 (case container c of
                    None \<Rightarrow> None
                  | Some v \<Rightarrow>
                      Some (if currentSectionIndex c + 1 = int (length (plainSections d))
                            then QuizQuestionView else SectionView))\<rparr>)"
proof -
  let ?c2 = "c\<lparr>currentSectionIndex := currentSectionIndex c + 1\<rparr>"
  have r: "renderSection ?c2 =
           (Inr (),
            ?c2\<lparr>container :=
                 (case container ?c2 of
                    None \<Rightarrow> None
                  | Some v \<Rightarrow>
                      Some (if currentSectionIndex ?c2 = int (length (plainSections d))
                            then QuizQuestionView else SectionView))\<rparr>)"
    by (rule renderSection_shaped[where cq = cq and sc = sc and en = en])
       (use sh lo hi cq in simp_all)
  show ?thesis
  proof (cases "container c")
    case None
    with hi show ?thesis
      by (simp add: nextSection_def fadeOut_def fadeIn_def)
  next
    case (Some v)
    with hi r show ?thesis
      by (simp add: nextSection_def fadeOut_def fadeIn_def)
  qed
qed

lemma run_append: "run (xs @ ys) c = run ys (run xs c)"
  by (induction xs arbitrary: c) simp_all

lemma signals_append: "signals (xs @ ys) c = signals xs c @ signals ys (run xs c)"
  by (induction xs arbitrary: c) simp_all

lemma replicate_two_more: "replicate (Suc (Suc m)) x = replicate m x @ [x, x]"
  by (induction m) simp_all

lemma walk_forward:
  assumes "sections c = plainSections d @ quizPart d cq sc en"
    and "0 \<le> currentSectionIndex c"
    and "currentSectionIndex c + int k \<le> int (length (sections c)) - 1"
    and "0 \<le> cq" "quizQuestionsOf d \<noteq> [] \<longrightarrow> cq < int (quizLength d)"
  shows "currentSectionIndex (run (replicate k NextSection) c) = currentSectionIndex c + int k
         \<and> sections (run (replicate k NextSection) c) = sections c
         \<and> onComplete (run (replicate k NextSection) c) = onComplete c
         \<and> signals (replicate k NextSection) c = replicate k (Inr Advanced)"
  using assms
proof (induction k arbitrary: c)
  case 0
  then show ?case by simp
next
  case (Suc k)
  from Suc.prems have hi: "currentSectionIndex c < int (length (sections c)) - 1"
    by simp
  note n = nextSection_shaped[OF Suc.prems(1,2) hi Suc.prems(4,5)]
  let ?c' = "snd (nextSection c)"
  have "currentSectionIndex ?c' = currentSectionIndex c + 1" "sections ?c' = sections c"
    "onComplete ?c' = onComplete c" "fst (nextSection c) = Inr Advanced"
    by (simp_all add: n)
  moreover
  from this Suc.prems
  have "currentSectionIndex (run (replicate k NextSection) ?c') = currentSectionIndex ?c' + int k
         \<and> sections (run (replicate k NextSection) ?c') = sections ?c'
         \<and> onComplete (run (replicate k NextSection) ?c') = onComplete ?c'
         \<and> signals (replicate k NextSection) ?c' = replicate k (Inr Advanced)"
    by (intro Suc.IH) simp_all
  ultimately show ?case by simp
qed

text \<open>
  Claim C2. Take a new controller (its sections as built, index 0) with a callback \<open>h\<close>
  registered, and let \<open>n\<close> be the number of its sections. Before call \<open>k + 1\<close> of \<open>n\<close>
  calls of \<^verbatim>\<open>nextSection\<close> the index is \<open>k\<close>, so the calls are made from the indices
  \<open>0, 1, .., n - 1\<close>, each once and in increasing order. The first \<open>n - 1\<close> calls advance;
  call \<open>n\<close>, made from the last section, calls \<open>h\<close> once and call \<open>n + 1\<close> calls it once
  again, the index staying at \<open>n - 1\<close>. In any state a call from before the last section
  raises the index by exactly one, and a call from the last section reports the
  registered callback as called and changes nothing.
\<close>

theorem nextSection_walk:
  assumes fresh: "sections c = buildSections d" "currentSectionIndex c = 0"
    and reg: "onComplete c = Some h"
  shows "(\<forall>k < length (sections c).
            currentSectionIndex (run (replicate k NextSection) c) = int k)
         \<and> signals (replicate (length (sections c) + 1) NextSection) c
             = replicate (length (sections c) - 1) (Inr Advanced)
               @ [Inr (Completed (Some h)), Inr (Completed (Some h))]
         \<and> currentSectionIndex (run (replicate (length (sections c) + 1) NextSection) c)
             = int (length (sections c)) - 1
         \<and> (\<forall>c'. currentSectionIndex c' < int (length (sections c')) - 1 \<longrightarrow>
               currentSectionIndex (snd (nextSection c')) = currentSectionIndex c' + 1)
         \<and> (\<forall>c'. currentSectionIndex c' \<ge> int (length (sections c')) - 1 \<longrightarrow>
               nextSection c' = (Inr (Completed (onComplete c')), c'))"
proof -
  let ?n = "length (sections c)"
  have sh: "sections c = plainSections d @ quizPart d 0 0 False"
    using fresh(1) buildSections_shape by simp
  have npos: "0 < ?n"
    using fresh(1) buildSections_nonempty[of d] by simp
  have cqb: "quizQuestionsOf d \<noteq> [] \<longrightarrow> (0::int) < int (quizLength d)"
    using quizLength_pos by simp
  have walk: "currentSectionIndex (run (replicate k NextSection) c) = int k
         \<and> sections (run (replicate k NextSection) c) = sections c
         \<and> onComplete (run (replicate k NextSection) c) = onComplete c
         \<and> signals (replicate k NextSection) c = replicate k (Inr Advanced)"
    if "k < ?n" for k
    using walk_forward[OF sh, of k] that fresh(2) cqb by simp
  let ?l = "run (replicate (?n - 1) NextSection) c"
  have last: "currentSectionIndex ?l = int ?n - 1" "sections ?l = sections c"
    "onComplete ?l = Some h" "signals (replicate (?n - 1) NextSection) c
       = replicate (?n - 1) (Inr Advanced)"
    using walk[of "?n - 1"] npos reg by (simp_all add: of_nat_diff)
  then have stay: "nextSection ?l = (Inr (Completed (Some h)), ?l)"
    by (simp add: nextSection_def)
  have split: "replicate (?n + 1) NextSection
                 = replicate (?n - 1) NextSection @ [NextSection, NextSection]"
    using npos replicate_two_more[of "?n - 1" NextSection] by simp
  have "signals (replicate (?n - 1) NextSection @ [NextSection, NextSection]) c
             = replicate (?n - 1) (Inr Advanced)
               @ [Inr (Completed (Some h)), Inr (Completed (Some h))]"
    using last(4) stay by (simp add: signals_append)
  then have sig: "signals (replicate (?n + 1) NextSection) c
             = replicate (?n - 1) (Inr Advanced)
               @ [Inr (Completed (Some h)), Inr (Completed (Some h))]"
    by (simp only: split)
  have "currentSectionIndex (run (replicate (?n - 1) NextSection @ [NextSection, NextSection]) c)
          = int ?n - 1"
    using last(1) stay by (simp add: run_append)
  then have fin: "currentSectionIndex (run (replicate (?n + 1) NextSection) c) = int ?n - 1"
    by (simp only: split)
  have adv: "currentSectionIndex (snd (nextSection c')) = currentSectionIndex c' + 1"
    if "currentSectionIndex c' < int (length (sections c')) - 1" for c'
    using that by (simp add: nextSection_index)
  have comp: "nextSection c' = (Inr (Completed (onComplete c')), c')"
    if "currentSectionIndex c' \<ge> int (length (sections c')) - 1" for c'
    using that by (simp add: nextSection_def)
  show ?thesis
    using walk sig fin adv comp by blast
qed

theorem nextSection_walk_witness:
  "sections (snd (setOnComplete (Some (Handler 0)) (SequentialStudy twoQuestionPlan)))
     = buildSections twoQuestionPlan
   \<and> currentSectionIndex (snd (setOnComplete (Some (Handler 0)) (SequentialStudy twoQuestionPlan)))
     = 0
   \<and> onComplete (snd (setOnComplete (Some (Handler 0)) (SequentialStudy twoQuestionPlan)))
     = Some (Handler 0)
   \<and> length (sections (snd (setOnComplete (Some (Handler 0)) (SequentialStudy twoQuestionPlan))))
     = 2
   \<and> signals
         (replicate
           (length (sections
              (snd (setOnComplete (Some (Handler 0)) (SequentialStudy twoQuestionPlan)))) + 1)
           NextSection)
         (snd (setOnComplete (Some (Handler 0)) (SequentialStudy twoQuestionPlan)))
     = replicate
         (length (sections
            (snd (setOnComplete (Some (Handler 0)) (SequentialStudy twoQuestionPlan)))) - 1)
         (Inr Advanced)
       @ [Inr (Completed (Some (Handler 0))), Inr (Completed (Some (Handler 0)))]"
proof -
  let ?c = "snd (setOnComplete (Some (Handler 0)) (SequentialStudy twoQuestionPlan))"
  have a: "sections ?c = buildSections twoQuestionPlan"
    by (simp add: setOnComplete_def SequentialStudy_def)
  have b: "currentSectionIndex ?c = 0"
    by (simp add: setOnComplete_def SequentialStudy_def)
  have c: "onComplete ?c = Some (Handler 0)"
    by (simp add: setOnComplete_def)
  have "length (buildSections twoQuestionPlan) = 2"
    by (simp add: buildSections_def twoQuestionPlan_def summaryOnlyPlan_def)
  with a have n: "length (sections ?c) = 2"
    by simp
  show ?thesis
    using nextSection_walk [OF a b c] a b c n by blast
qed

subsection \<open>Grading\<close>

lemma isWhiteSpace_toLowerCase_char: "isWhiteSpace (toLowerCase_char c) = isWhiteSpace c"
proof -
  have "of_char (char_of (of_char c + 32 :: nat)) = ((of_char c + 32) mod 256 :: nat)"
    by (rule of_char_of)
  moreover have "(of_char c :: nat) < 256"
    by simp
  ultimately show ?thesis
    by (auto simp: isWhiteSpace_def toLowerCase_char_def Let_def)
qed

lemma trim_toLowerCase: "trim (toLowerCase s) = toLowerCase (trim s)"
proof -
  have comp: "isWhiteSpace \<circ> toLowerCase_char = isWhiteSpace"
    by (rule ext) (simp add: isWhiteSpace_toLowerCase_char)
  show ?thesis
    by (simp add: trim_def toLowerCase_def dropWhile_map rev_map comp)
qed

lemma includes_str_sublist: "includes_str s t = sublist t s"
proof (induction s)
  case Nil
  then show ?case by simp
next
  case (Cons c s)
  then show ?case by (cases t) (simp_all add: sublist_Cons_right)
qed

lemma isCorrect_multiple_choice:
  "question_type q = ''multiple_choice'' \<Longrightarrow>
     isCorrect q candidate = multipleChoiceRule candidate (answer q)"
  by (simp add: isCorrect_def multipleChoiceRule_def trim_toLowerCase)

lemma getCurrentSection_updateSection:
  "getCurrentSection (updateSection (currentSectionIndex c) f c)
     = map_option f (getCurrentSection c)"
  by (auto simp: getCurrentSection_def updateSection_def at_index_def nat_less_iff)

lemma getCurrentSection_container [simp]:
  "getCurrentSection (c\<lparr>container := v\<rparr>) = getCurrentSection c"
  by (simp add: getCurrentSection_def)

lemma submitQuizAnswer_section:
  assumes "currentQuestionOf c = Some (i, q)"
  shows "getCurrentSection (snd (submitQuizAnswer a c))
           = map_option (if isCorrect q a then incrementScore else id) (getCurrentSection c)"
proof (cases "isCorrect q a")
  case True
  with assms show ?thesis
    by (simp add: submitQuizAnswer_def Let_def getCurrentSection_updateSection
          split: option.splits view.splits)
next
  case False
  with assms show ?thesis
    by (simp add: submitQuizAnswer_def Let_def option.map_id0 split: option.splits view.splits)
qed

lemma submitQuizAnswer_signal:
  assumes "currentQuestionOf c = Some (i, q)" "container c = Some QuizQuestionView"
  shows "fst (submitQuizAnswer a c) = Inr (Answered (isCorrect q a))"
  using assms by (simp add: submitQuizAnswer_def Let_def updateSection_frame)

text \<open>
  Claim C4. When the question being answered is a multiple-choice question, the grading
  of \<^verbatim>\<open>submitQuizAnswer\<close> is the rule of the specification: the candidate is correct
  exactly when it equals the correct answer after trimming and lowercasing both. The
  current section's score goes up by one when it is and stays when it is not, and from
  a freshly rendered question the call reports that verdict.
\<close>

theorem multiple_choice_grading:
  assumes "currentQuestionOf c = Some (i, q)" "question_type q = ''multiple_choice''"
  shows "isCorrect q candidate = multipleChoiceRule candidate (answer q)
         \<and> getCurrentSection (snd (submitQuizAnswer candidate c))
             = map_option (if multipleChoiceRule candidate (answer q) then incrementScore else id)
                 (getCurrentSection c)
         \<and> (container c = Some QuizQuestionView \<longrightarrow>
               fst (submitQuizAnswer candidate c)
                 = Inr (Answered (multipleChoiceRule candidate (answer q))))"
  using submitQuizAnswer_section[OF assms(1), of candidate]
    submitQuizAnswer_signal[OF assms(1), of candidate]
    isCorrect_multiple_choice[OF assms(2), of candidate]
  by simp

theorem multiple_choice_grading_witness:
  "currentQuestionOf (run [Render, NextSection] (SequentialStudy oneQuestionPlan))
     = Some (0, capitalQuestion)
   \<and> question_type capitalQuestion = ''multiple_choice''
   \<and> answer capitalQuestion = ''paris''
   \<and> container (run [Render, NextSection] (SequentialStudy oneQuestionPlan))
       = Some QuizQuestionView
   \<and> multipleChoiceRule ''Paris'' ''paris''
   \<and> fst (submitQuizAnswer ''Paris'' (run [Render, NextSection] (SequentialStudy oneQuestionPlan)))
       = Inr (Answered True)
   \<and> \<not> multipleChoiceRule ''Par'' ''paris''
   \<and> fst (submitQuizAnswer ''Par'' (run [Render, NextSection] (SequentialStudy oneQuestionPlan)))
       = Inr (Answered False)"
proof -
  let ?c = "run [Render, NextSection] (SequentialStudy oneQuestionPlan)"
  have q: "currentQuestionOf ?c = Some (0, capitalQuestion)"
    by code_simp
  have t: "question_type capitalQuestion = ''multiple_choice''"
    by (simp add: capitalQuestion_def)
  have a: "answer capitalQuestion = ''paris''"
    by (simp add: capitalQuestion_def)
  have v: "container ?c = Some QuizQuestionView"
    by code_simp
  have r: "multipleChoiceRule ''Paris'' ''paris''"
    by code_simp
  have n: "\<not> multipleChoiceRule ''Par'' ''paris''"
    by code_simp
  show ?thesis
    using multiple_choice_grading [OF q t, of "''Paris''"]
      multiple_choice_grading [OF q t, of "''Par''"] q t a v r n
    by simp
qed

lemma sublist_dropWhile_hd:
  assumes "sublist t s" "t \<noteq> []" "\<not> P (hd t)"
  shows "sublist t (dropWhile P s)"
proof -
  from assms(1) obtain p q where s: "s = p @ t @ q"
    by (auto simp: sublist_def)
  have "sublist t (dropWhile P (p @ t @ q))"
  proof (induction p)
    case Nil
    from assms(2,3) have "dropWhile P (t @ q) = t @ q"
      by (cases t) simp_all
    then show ?case by simp
  next
    case (Cons x p)
    then show ?case
      by (auto simp: sublist_Cons_right intro: sublist_appendI)
  qed
  with s show ?thesis by simp
qed

lemma sublist_dropWhile_last:
  assumes "sublist t s" "t \<noteq> []" "\<not> P (last t)"
  shows "sublist t (rev (dropWhile P (rev s)))"
proof -
  from assms have "sublist (rev t) (dropWhile P (rev s))"
    by (intro sublist_dropWhile_hd) (simp_all add: sublist_rev hd_rev)
  then have "sublist (rev (rev t)) (rev (dropWhile P (rev s)))"
    by (simp only: sublist_rev)
  then show ?thesis by simp
qed

lemma trim_sublist: "sublist (trim x) x"
proof -
  have "suffix (dropWhile isWhiteSpace (rev (dropWhile isWhiteSpace x)))
          (rev (dropWhile isWhiteSpace x))"
    by (rule suffix_dropWhile)
  then have "sublist (dropWhile isWhiteSpace (rev (dropWhile isWhiteSpace x)))
          (rev (dropWhile isWhiteSpace x))"
    by (rule suffix_imp_sublist)
  then have "sublist (trim x) (rev (rev (dropWhile isWhiteSpace x)))"
    unfolding trim_def by (simp only: sublist_rev)
  moreover have "sublist (dropWhile isWhiteSpace x) x"
    by (rule suffix_imp_sublist) (rule suffix_dropWhile)
  ultimately show ?thesis
    by (auto intro: sublist_order.order_trans)
qed

lemma trim_ends:
  assumes "trim x \<noteq> []"
  shows "\<not> isWhiteSpace (hd (trim x))" "\<not> isWhiteSpace (last (trim x))"
proof -
  let ?u = "dropWhile isWhiteSpace x"
  let ?v = "dropWhile isWhiteSpace (rev ?u)"
  from assms have v: "?v \<noteq> []"
    by (simp add: trim_def)
  have u: "?u \<noteq> []"
  proof
    assume "?u = []"
    then have "?v = []" by (simp only: rev.simps dropWhile.simps)
    with v show False by (simp only:)
  qed
  from v have "\<not> isWhiteSpace (hd ?v)"
    by (rule hd_dropWhile)
  with v show "\<not> isWhiteSpace (last (trim x))"
    by (simp add: trim_def last_rev)
  from u have h: "\<not> isWhiteSpace (hd ?u)"
    by (rule hd_dropWhile)
  from u have "hd ?u \<in> set (rev ?u)"
    by simp
  then have "last ?v = last (rev ?u)"
    using h by (rule dropWhile_last)
  with u h v show "\<not> isWhiteSpace (hd (trim x))"
    by (simp add: trim_def hd_rev last_rev)
qed

lemma sublist_trim:
  assumes "sublist x y"
  shows "sublist (trim x) (trim y)"
proof (cases "trim x = []")
  case True
  then show ?thesis by simp
next
  case False
  have "sublist (trim x) y"
    using trim_sublist[of x] assms by (rule sublist_order.order_trans)
  then have "sublist (trim x) (dropWhile isWhiteSpace y)"
    using False trim_ends(1)[OF False] by (rule sublist_dropWhile_hd)
  then show ?thesis
    unfolding trim_def[of y] using False trim_ends(2)[OF False]
    by (rule sublist_dropWhile_last)
qed

lemma isCorrect_short_answer_sound:
  assumes "question_type q \<noteq> ''multiple_choice''" "isCorrect q candidate"
  shows "shortAnswerRule candidate (answer q)"
proof -
  from assms have "sublist (toLowerCase (answer q)) (toLowerCase candidate)
                   \<or> sublist (toLowerCase candidate) (toLowerCase (answer q))"
    by (simp add: isCorrect_def includes_str_sublist)
  then have "sublist (trim (toLowerCase (answer q))) (trim (toLowerCase candidate))
             \<or> sublist (trim (toLowerCase candidate)) (trim (toLowerCase (answer q)))"
    by (auto intro: sublist_trim)
  then show ?thesis
    by (auto simp: shortAnswerRule_def trim_toLowerCase)
qed

lemma isCorrect_short_answer_trimmed:
  assumes "question_type q \<noteq> ''multiple_choice''"
    and "trim candidate = candidate" "trim (answer q) = answer q"
  shows "isCorrect q candidate = shortAnswerRule candidate (answer q)"
  using assms by (auto simp: isCorrect_def shortAnswerRule_def includes_str_sublist)

lemma isCorrect_short_answer_example:
  "isCorrect cellQuestion ''The mitochondria is the powerhouse''"
  by code_simp

text \<open>
  Claim C5, at an input where the code and the rule differ. The correct answer of the
  document is \<open>''mitochondria ''\<close> with a trailing space and the candidate is
  \<open>''the mitochondria''\<close>. After trimming, the answer is a substring of the candidate, so
  the rule of the specification accepts; \<^verbatim>\<open>submitQuizAnswer\<close> lowercases without
  trimming, finds neither string inside the other, and rejects.
\<close>

theorem short_answer_untrimmed:
  "question_type paddedCellQuestion \<noteq> ''multiple_choice''
   \<and> answer paddedCellQuestion = ''mitochondria ''
   \<and> currentQuestionOf (run [Render, NextSection] (SequentialStudy paddedAnswerPlan))
       = Some (0, paddedCellQuestion)
   \<and> shortAnswerRule ''the mitochondria'' (answer paddedCellQuestion)
   \<and> \<not> isCorrect paddedCellQuestion ''the mitochondria''
   \<and> fst (submitQuizAnswer ''the mitochondria''
             (run [Render, NextSection] (SequentialStudy paddedAnswerPlan)))
       = Inr (Answered False)
   \<and> quizScore (snd (submitQuizAnswer ''the mitochondria''
                        (run [Render, NextSection] (SequentialStudy paddedAnswerPlan)))) = 0"
  by code_simp

subsection \<open>The states a run can reach\<close>

lemma quizSectionWith_simps:
  "section_type (quizSectionWith d cq sc en) = Quiz"
  "content (quizSectionWith d cq sc en)
     = QuizContent \<lparr>questions = take 3 (quizQuestionsOf d), currentQuestion = cq, score = sc\<rparr>"
  "enabled (next_button (quizSectionWith d cq sc en)) = en"
  "incrementScore (quizSectionWith d cq sc en) = quizSectionWith d cq (sc + 1) en"
  "incrementQuestion (quizSectionWith d cq sc en) = quizSectionWith d (cq + 1) sc en"
  "enableNext (quizSectionWith d cq sc en) = quizSectionWith d cq sc True"
  by (simp_all add: quizSectionWith_def incrementScore_def incrementQuestion_def enableNext_def)

lemma plainSections_content:
  "s \<in> set (plainSections d) \<Longrightarrow> content s \<noteq> QuizContent qc"
  by (auto simp: plainSections_def buildSections_def Let_def split: option.splits if_splits)

lemma updateSection_quiz:
  assumes "sections c = plainSections d @ quizPart d cq sc en" "quizQuestionsOf d \<noteq> []"
  shows "updateSection (int (length (plainSections d))) f c
           = c\<lparr>sections := plainSections d @ [f (quizSectionWith d cq sc en)]\<rparr>"
  using assms by (simp add: updateSection_def quizPart_def)

lemma at_index_quiz:
  assumes "sections c = plainSections d @ quizPart d cq sc en" "quizQuestionsOf d \<noteq> []"
  shows "at_index (sections c) (int (length (plainSections d))) = Some (quizSectionWith d cq sc en)"
  using assms by (simp add: at_index_def quizPart_def)

lemma currentQuestionOf_plain:
  assumes "sections c = plainSections d @ quizPart d cq sc en"
    and "0 \<le> currentSectionIndex c"
    and "currentSectionIndex c < int (length (plainSections d))"
  shows "currentQuestionOf c = None"
proof -
  from assms have "plainSections d ! nat (currentSectionIndex c) \<in> set (plainSections d)"
    by simp
  then have "\<And>qc. content (plainSections d ! nat (currentSectionIndex c)) \<noteq> QuizContent qc"
    by (rule plainSections_content)
  with current_plain(1)[OF assms] show ?thesis
    by (simp add: currentQuestionOf_def split: content.splits)
qed

lemma currentQuestionOf_quiz:
  assumes "sections c = plainSections d @ quizPart d cq sc en"
    and "currentSectionIndex c = int (length (plainSections d))"
    and "quizQuestionsOf d \<noteq> []"
    and "0 \<le> cq" "cq < int (quizLength d)"
  shows "currentQuestionOf c = Some (cq, take 3 (quizQuestionsOf d) ! nat cq)"
  using current_quiz[OF assms(1,2,3)] assms(4,5)
  by (simp add: currentQuestionOf_def quizSectionWith_simps at_index_def quizLength_def)

text \<open>The observations of a controller whose sections have the shape.\<close>

lemma find_plain: "find (\<lambda>s. section_type s = Quiz) (plainSections d) = None"
  by (simp add: find_None_iff plainSections_def)

lemma find_append:
  "find P (xs @ ys) = (case find P xs of None \<Rightarrow> find P ys | Some x \<Rightarrow> Some x)"
  by (induction xs) simp_all

lemma quizSection_shaped:
  assumes "sections c = plainSections d @ quizPart d cq sc en"
  shows "quizSection c = (if quizQuestionsOf d = [] then None else Some (quizSectionWith d cq sc en))"
  using assms by (simp add: quizSection_def find_append find_plain quizPart_def quizSectionWith_simps)

lemma observations_shaped:
  assumes "sections c = plainSections d @ quizPart d cq sc en"
  shows "quizScore c = (if quizQuestionsOf d = [] then 0 else sc)"
    and "quizTotal c = quizLength d"
    and "quizEnabled c = (quizQuestionsOf d \<noteq> [] \<and> en)"
  using quizSection_shaped[OF assms]
  by (simp_all add: quizScore_def quizTotal_def quizEnabled_def quizState_def
        quizSectionWith_simps quizLength_def)


lemma finished_snoc: "finished (S @ [x]) = (finished S \<or> isFinished x)"
  by (auto simp: finished_def)

lemma finished_Nil: "\<not> finished []"
  by (simp add: finished_def)

lemma isFinished_iff: "isFinished x = (\<exists>sc t p. x = Inr (QuizFinished sc t p))"
  by (cases x rule: isFinished.cases) simp_all

lemma reachableE:
  assumes "reachable d c G S"
  obtains cq sc where
    "sections c = plainSections d @ quizPart d cq sc (finished S)"
    "0 \<le> currentSectionIndex c"
    "currentSectionIndex c < int (length (sections c))"
    "0 \<le> cq"
    "quizQuestionsOf d \<noteq> [] \<longrightarrow> cq < int (quizLength d)"
    "0 \<le> sc"
    "sc \<le> int (length G)"
    "length G \<le> length S"
    "\<forall>i \<in> set G. 0 \<le> i \<and> i < int (quizLength d)"
    "\<forall>i. 0 \<le> i \<and> i < cq \<longrightarrow> i \<in> set G"
    "\<forall>k. container c = Some (QuizFeedbackView k) \<longrightarrow>
             quizQuestionsOf d \<noteq> [] \<and> k = int (length (plainSections d))
             \<and> currentSectionIndex c = k \<and> cq \<in> set G"
    "finished S \<longrightarrow>
             quizQuestionsOf d \<noteq> []
             \<and> (\<forall>i. 0 \<le> i \<and> i < int (quizLength d) \<longrightarrow> i \<in> set G)"
    "\<forall>sc' t p. Inr (QuizFinished sc' t p) \<in> set S \<longrightarrow>
             t = quizLength d \<and> 0 < t \<and> p = percentage sc' t
             \<and> 0 \<le> sc' \<and> sc' \<le> int (length S)"
  using assms unfolding reachable_def by blast

lemma reachableI:
  assumes
    "sections c = plainSections d @ quizPart d cq sc (finished S)"
    "0 \<le> currentSectionIndex c"
    "currentSectionIndex c < int (length (sections c))"
    "0 \<le> cq"
    "quizQuestionsOf d \<noteq> [] \<longrightarrow> cq < int (quizLength d)"
    "0 \<le> sc"
    "sc \<le> int (length G)"
    "length G \<le> length S"
    "\<forall>i \<in> set G. 0 \<le> i \<and> i < int (quizLength d)"
    "\<forall>i. 0 \<le> i \<and> i < cq \<longrightarrow> i \<in> set G"
    "\<forall>k. container c = Some (QuizFeedbackView k) \<longrightarrow>
             quizQuestionsOf d \<noteq> [] \<and> k = int (length (plainSections d))
             \<and> currentSectionIndex c = k \<and> cq \<in> set G"
    "finished S \<longrightarrow>
             quizQuestionsOf d \<noteq> []
             \<and> (\<forall>i. 0 \<le> i \<and> i < int (quizLength d) \<longrightarrow> i \<in> set G)"
    "\<forall>sc' t p. Inr (QuizFinished sc' t p) \<in> set S \<longrightarrow>
             t = quizLength d \<and> 0 < t \<and> p = percentage sc' t
             \<and> 0 \<le> sc' \<and> sc' \<le> int (length S)"
  shows "reachable d c G S"
  unfolding reachable_def using assms by blast

lemma reachable_init: "reachable d (SequentialStudy d) [] []"
proof (rule reachableI[where cq = 0 and sc = 0])
  show "sections (SequentialStudy d) = plainSections d @ quizPart d 0 0 (finished [])"
    by (simp add: SequentialStudy_def buildSections_shape finished_Nil)
  show "currentSectionIndex (SequentialStudy d) < int (length (sections (SequentialStudy d)))"
    using buildSections_nonempty[of d] by (simp add: SequentialStudy_def)
  show "quizQuestionsOf d \<noteq> [] \<longrightarrow> 0 < int (quizLength d)"
    using quizLength_pos by simp
qed (simp_all add: SequentialStudy_def finished_Nil)

text \<open>A call that grades nothing, finalizes nothing and leaves the sections alone.\<close>

lemma reachable_frame:
  assumes r: "reachable d c G S"
    and sec: "sections c' = sections c"
    and idx: "0 \<le> currentSectionIndex c'" "currentSectionIndex c' < int (length (sections c))"
    and view: "\<forall>k. container c' = Some (QuizFeedbackView k) \<longrightarrow>
                 container c = Some (QuizFeedbackView k)
                 \<and> currentSectionIndex c' = currentSectionIndex c"
    and sig: "\<not> isFinished x"
  shows "reachable d c' G (S @ [x])"
proof -
  from r obtain cq sc where f:
    "sections c = plainSections d @ quizPart d cq sc (finished S)"
    "0 \<le> cq"
    "quizQuestionsOf d \<noteq> [] \<longrightarrow> cq < int (quizLength d)"
    "0 \<le> sc"
    "sc \<le> int (length G)"
    "length G \<le> length S"
    "\<forall>i \<in> set G. 0 \<le> i \<and> i < int (quizLength d)"
    "\<forall>i. 0 \<le> i \<and> i < cq \<longrightarrow> i \<in> set G"
    "\<forall>k. container c = Some (QuizFeedbackView k) \<longrightarrow>
             quizQuestionsOf d \<noteq> [] \<and> k = int (length (plainSections d))
             \<and> currentSectionIndex c = k \<and> cq \<in> set G"
    "finished S \<longrightarrow>
             quizQuestionsOf d \<noteq> []
             \<and> (\<forall>i. 0 \<le> i \<and> i < int (quizLength d) \<longrightarrow> i \<in> set G)"
    "\<forall>sc' t p. Inr (QuizFinished sc' t p) \<in> set S \<longrightarrow>
             t = quizLength d \<and> 0 < t \<and> p = percentage sc' t
             \<and> 0 \<le> sc' \<and> sc' \<le> int (length S)"
    by (rule reachableE)
  from sig have fin: "finished (S @ [x]) = finished S"
    by (simp add: finished_snoc)
  from sig have nof: "\<And>sc' t p. x \<noteq> Inr (QuizFinished sc' t p)"
    by (auto simp: isFinished_iff)
  show ?thesis
  proof (rule reachableI[where cq = cq and sc = sc])
    show "sections c' = plainSections d @ quizPart d cq sc (finished (S @ [x]))"
      using f(1) sec fin by simp
    show "currentSectionIndex c' < int (length (sections c'))"
      using idx(2) sec by simp
    show "length G \<le> length (S @ [x])"
      using f(6) by simp
    show "\<forall>k. container c' = Some (QuizFeedbackView k) \<longrightarrow>
             quizQuestionsOf d \<noteq> [] \<and> k = int (length (plainSections d))
             \<and> currentSectionIndex c' = k \<and> cq \<in> set G"
      using f(9) view by metis
    show "finished (S @ [x]) \<longrightarrow>
             quizQuestionsOf d \<noteq> []
             \<and> (\<forall>i. 0 \<le> i \<and> i < int (quizLength d) \<longrightarrow> i \<in> set G)"
      using f(10) fin by simp
    show "\<forall>sc' t p. Inr (QuizFinished sc' t p) \<in> set (S @ [x]) \<longrightarrow>
             t = quizLength d \<and> 0 < t \<and> p = percentage sc' t
             \<and> 0 \<le> sc' \<and> sc' \<le> int (length (S @ [x]))"
    proof (intro allI impI)
      fix sc' t p
      assume "Inr (QuizFinished sc' t p) \<in> set (S @ [x])"
      with nof[of sc' t p] have "Inr (QuizFinished sc' t p) \<in> set S"
        by auto
      with f(11) have "t = quizLength d \<and> 0 < t \<and> p = percentage sc' t
             \<and> 0 \<le> sc' \<and> sc' \<le> int (length S)"
        by blast
      then show "t = quizLength d \<and> 0 < t \<and> p = percentage sc' t
             \<and> 0 \<le> sc' \<and> sc' \<le> int (length (S @ [x]))"
        by simp
    qed
  qed (use f idx in simp_all)
qed


lemma prevSection_shaped:
  assumes sh: "sections c = plainSections d @ quizPart d cq sc en"
    and lo: "0 < currentSectionIndex c"
    and hi: "currentSectionIndex c < int (length (sections c))"
    and cq: "0 \<le> cq" "quizQuestionsOf d \<noteq> [] \<longrightarrow> cq < int (quizLength d)"
  shows "prevSection c =
           (Inr Retreated,
            c\<lparr>currentSectionIndex := currentSectionIndex c - 1,
              container :=
                 (case container c of
                    None \<Rightarrow> None
                  | Some v \<Rightarrow>
                      Some (if currentSectionIndex c - 1 = int (length (plainSections d))
                            then QuizQuestionView else SectionView))\<rparr>)"
proof -
  let ?c2 = "c\<lparr>currentSectionIndex := currentSectionIndex c - 1\<rparr>"
  have r: "renderSection ?c2 =
           (Inr (),
            ?c2\<lparr>container :=
                 (case container ?c2 of
                    None \<Rightarrow> None
                  | Some v \<Rightarrow>
                      Some (if currentSectionIndex ?c2 = int (length (plainSections d))
                            then QuizQuestionView else SectionView))\<rparr>)"
    by (rule renderSection_shaped[where cq = cq and sc = sc and en = en])
       (use sh lo hi cq in simp_all)
  show ?thesis
  proof (cases "container c")
    case None
    with lo show ?thesis
      by (simp add: prevSection_def fadeOut_def fadeIn_def)
  next
    case (Some v)
    with lo r show ?thesis
      by (simp add: prevSection_def fadeOut_def fadeIn_def)
  qed
qed

lemma render_shaped:
  assumes sh: "sections c = plainSections d @ quizPart d cq sc en"
    and lo: "0 \<le> currentSectionIndex c"
    and hi: "currentSectionIndex c < int (length (sections c))"
    and cq: "0 \<le> cq" "quizQuestionsOf d \<noteq> [] \<longrightarrow> cq < int (quizLength d)"
  shows "render c =
           (Inr Done,
            c\<lparr>container :=
                 Some (if currentSectionIndex c = int (length (plainSections d))
                       then QuizQuestionView else SectionView)\<rparr>)"
proof -
  let ?c1 = "c\<lparr>container := Some HostView\<rparr>"
  have "renderSection ?c1 =
           (Inr (),
            ?c1\<lparr>container :=
                 (case container ?c1 of
                    None \<Rightarrow> None
                  | Some v \<Rightarrow>
                      Some (if currentSectionIndex ?c1 = int (length (plainSections d))
                            then QuizQuestionView else SectionView))\<rparr>)"
    by (rule renderSection_shaped[where cq = cq and sc = sc and en = en])
       (use sh lo hi cq in simp_all)
  then show ?thesis
    by (simp add: render_def)
qed

lemma reachable_render:
  assumes "reachable d c G S"
  shows "reachable d (snd (render c)) G (S @ [fst (render c)])"
proof -
  from assms obtain cq sc where f:
    "sections c = plainSections d @ quizPart d cq sc (finished S)"
    "0 \<le> currentSectionIndex c"
    "currentSectionIndex c < int (length (sections c))"
    "0 \<le> cq"
    "quizQuestionsOf d \<noteq> [] \<longrightarrow> cq < int (quizLength d)"
    by (rule reachableE)
  note r = render_shaped[OF f]
  show ?thesis
    by (rule reachable_frame[OF assms]) (use f r in simp_all)
qed

lemma reachable_setOnComplete:
  assumes "reachable d c G S"
  shows "reachable d (snd (setOnComplete h c)) G (S @ [fst (setOnComplete h c)])"
proof -
  from assms obtain cq sc where f:
    "0 \<le> currentSectionIndex c"
    "currentSectionIndex c < int (length (sections c))"
    by (rule reachableE)
  show ?thesis
    by (rule reachable_frame[OF assms]) (use f in \<open>simp_all add: setOnComplete_def\<close>)
qed

lemma reachable_nextSection:
  assumes "reachable d c G S"
  shows "reachable d (snd (nextSection c)) G (S @ [fst (nextSection c)])"
proof -
  from assms obtain cq sc where f:
    "sections c = plainSections d @ quizPart d cq sc (finished S)"
    "0 \<le> currentSectionIndex c"
    "currentSectionIndex c < int (length (sections c))"
    "0 \<le> cq"
    "quizQuestionsOf d \<noteq> [] \<longrightarrow> cq < int (quizLength d)"
    by (rule reachableE)
  show ?thesis
  proof (cases "currentSectionIndex c \<ge> int (length (sections c)) - 1")
    case True
    then have "nextSection c = (Inr (Completed (onComplete c)), c)"
      by (simp add: nextSection_def)
    then show ?thesis
      using reachable_frame[OF assms, of c "Inr (Completed (onComplete c))"] f by simp
  next
    case False
    then have hi: "currentSectionIndex c < int (length (sections c)) - 1"
      by simp
    note n = nextSection_shaped[OF f(1,2) hi f(4,5)]
    show ?thesis
      by (rule reachable_frame[OF assms])
         (use f hi n in \<open>simp_all split: option.splits\<close>)
  qed
qed

lemma reachable_prevSection:
  assumes "reachable d c G S"
  shows "reachable d (snd (prevSection c)) G (S @ [fst (prevSection c)])"
proof -
  from assms obtain cq sc where f:
    "sections c = plainSections d @ quizPart d cq sc (finished S)"
    "0 \<le> currentSectionIndex c"
    "currentSectionIndex c < int (length (sections c))"
    "0 \<le> cq"
    "quizQuestionsOf d \<noteq> [] \<longrightarrow> cq < int (quizLength d)"
    by (rule reachableE)
  show ?thesis
  proof (cases "currentSectionIndex c \<le> 0")
    case True
    then have "prevSection c = (Inr NoOp, c)"
      by (simp add: prevSection_def)
    then show ?thesis
      using reachable_frame[OF assms, of c "Inr NoOp"] f by simp
  next
    case False
    then have lo: "0 < currentSectionIndex c"
      by simp
    note n = prevSection_shaped[OF f(1) lo f(3,4,5)]
    show ?thesis
      by (rule reachable_frame[OF assms])
         (use f lo n in \<open>simp_all split: option.splits\<close>)
  qed
qed


lemma submitQuizAnswer_shaped:
  assumes sh: "sections c = plainSections d @ quizPart d cq sc en"
    and idx: "currentSectionIndex c = int (length (plainSections d))"
    and quiz: "quizQuestionsOf d \<noteq> []"
    and cq: "0 \<le> cq" "cq < int (quizLength d)"
  shows "snd (submitQuizAnswer a c) =
           c\<lparr>sections :=
                plainSections d
                @ quizPart d cq
                    (sc + (if isCorrect (take 3 (quizQuestionsOf d) ! nat cq) a then 1 else 0)) en,
             container :=
                (case container c of
                   Some QuizQuestionView \<Rightarrow> Some (QuizFeedbackView (currentSectionIndex c))
                 | Some (QuizFeedbackView k) \<Rightarrow> Some (QuizFeedbackView (currentSectionIndex c))
                 | v \<Rightarrow> v)\<rparr>"
    and "fst (submitQuizAnswer a c) =
           (case container c of
              Some QuizQuestionView \<Rightarrow>
                Inr (Answered (isCorrect (take 3 (quizQuestionsOf d) ! nat cq) a))
            | Some (QuizFeedbackView k) \<Rightarrow>
                Inr (Answered (isCorrect (take 3 (quizQuestionsOf d) ! nat cq) a))
            | v \<Rightarrow> Inl TypeError)"
proof -
  let ?q = "take 3 (quizQuestionsOf d) ! nat cq"
  note cur = currentQuestionOf_quiz[OF sh idx quiz cq]
  have up: "updateSection (currentSectionIndex c) incrementScore c
              = c\<lparr>sections := plainSections d @ quizPart d cq (sc + 1) en\<rparr>"
    using updateSection_quiz[OF sh quiz, of incrementScore] idx quiz
    by (simp add: quizSectionWith_simps quizPart_def)
  have same: "c = c\<lparr>sections := plainSections d @ quizPart d cq sc en\<rparr>"
    using sh by simp
  show "snd (submitQuizAnswer a c) =
           c\<lparr>sections :=
                plainSections d @ quizPart d cq (sc + (if isCorrect ?q a then 1 else 0)) en,
             container :=
                (case container c of
                   Some QuizQuestionView \<Rightarrow> Some (QuizFeedbackView (currentSectionIndex c))
                 | Some (QuizFeedbackView k) \<Rightarrow> Some (QuizFeedbackView (currentSectionIndex c))
                 | v \<Rightarrow> v)\<rparr>"
  proof (cases "isCorrect ?q a")
    case True
    then show ?thesis
      using cur up by (simp add: submitQuizAnswer_def Let_def split: option.splits view.splits)
  next
    case False
    then show ?thesis
      using cur sh by (simp add: submitQuizAnswer_def Let_def split: option.splits view.splits)
  qed
  show "fst (submitQuizAnswer a c) =
           (case container c of
              Some QuizQuestionView \<Rightarrow> Inr (Answered (isCorrect ?q a))
            | Some (QuizFeedbackView k) \<Rightarrow> Inr (Answered (isCorrect ?q a))
            | v \<Rightarrow> Inl TypeError)"
    using cur up
    by (simp add: submitQuizAnswer_def Let_def updateSection_frame split: option.splits view.splits)
qed


lemma reachable_submitQuizAnswer:
  assumes r: "reachable d c G S"
  shows "reachable d (snd (submitQuizAnswer a c))
           (G @ (case currentQuestionOf c of None \<Rightarrow> [] | Some (i, q) \<Rightarrow> [i]))
           (S @ [fst (submitQuizAnswer a c)])"
proof -
  from r obtain cq sc where f:
    "sections c = plainSections d @ quizPart d cq sc (finished S)"
    "0 \<le> currentSectionIndex c"
    "currentSectionIndex c < int (length (sections c))"
    "0 \<le> cq"
    "quizQuestionsOf d \<noteq> [] \<longrightarrow> cq < int (quizLength d)"
    "0 \<le> sc"
    "sc \<le> int (length G)"
    "length G \<le> length S"
    "\<forall>i \<in> set G. 0 \<le> i \<and> i < int (quizLength d)"
    "\<forall>i. 0 \<le> i \<and> i < cq \<longrightarrow> i \<in> set G"
    "\<forall>k. container c = Some (QuizFeedbackView k) \<longrightarrow>
             quizQuestionsOf d \<noteq> [] \<and> k = int (length (plainSections d))
             \<and> currentSectionIndex c = k \<and> cq \<in> set G"
    "finished S \<longrightarrow>
             quizQuestionsOf d \<noteq> []
             \<and> (\<forall>i. 0 \<le> i \<and> i < int (quizLength d) \<longrightarrow> i \<in> set G)"
    "\<forall>sc' t p. Inr (QuizFinished sc' t p) \<in> set S \<longrightarrow>
             t = quizLength d \<and> 0 < t \<and> p = percentage sc' t
             \<and> 0 \<le> sc' \<and> sc' \<le> int (length S)"
    by (rule reachableE)
  from index_cases[OF f(1,2,3)] show ?thesis
  proof
    assume less: "currentSectionIndex c < int (length (plainSections d))"
    then have none: "currentQuestionOf c = None"
      using currentQuestionOf_plain[OF f(1,2)] by simp
    then have "submitQuizAnswer a c = (Inl TypeError, c)"
      by (simp add: submitQuizAnswer_def)
    with none show ?thesis
      using reachable_frame[OF r, of c "Inl TypeError"] f(2,3) by simp
  next
    assume "currentSectionIndex c = int (length (plainSections d)) \<and> quizQuestionsOf d \<noteq> []"
    then have idx: "currentSectionIndex c = int (length (plainSections d))"
      and quiz: "quizQuestionsOf d \<noteq> []"
      by simp_all
    from f(5) quiz have cqhi: "cq < int (quizLength d)"
      by simp
    let ?q = "take 3 (quizQuestionsOf d) ! nat cq"
    let ?sc = "sc + (if isCorrect ?q a then 1 else 0)"
    let ?c' = "snd (submitQuizAnswer a c)"
    let ?x = "fst (submitQuizAnswer a c)"
    note cur = currentQuestionOf_quiz[OF f(1) idx quiz f(4) cqhi]
    note st = submitQuizAnswer_shaped[OF f(1) idx quiz f(4) cqhi, of a]
    have nofin: "\<not> isFinished ?x"
      by (simp add: st(2) split: option.splits view.splits)
    then have fin: "finished (S @ [?x]) = finished S"
      by (simp add: finished_snoc)
    from nofin have nof: "\<And>sc' t p. ?x \<noteq> Inr (QuizFinished sc' t p)"
      by (auto simp: isFinished_iff)
    have "reachable d ?c' (G @ [cq]) (S @ [?x])"
    proof (rule reachableI[where cq = cq and sc = ?sc])
      show "sections ?c' = plainSections d @ quizPart d cq ?sc (finished (S @ [?x]))"
        by (simp add: st(1) fin)
      show "0 \<le> currentSectionIndex ?c'"
        using f(2) by (simp add: st(1))
      show "currentSectionIndex ?c' < int (length (sections ?c'))"
        using idx quiz by (simp add: st(1) quizPart_length)
      show "0 \<le> cq" by (rule f(4))
      show "quizQuestionsOf d \<noteq> [] \<longrightarrow> cq < int (quizLength d)" by (rule f(5))
      show "0 \<le> ?sc" using f(6) by simp
      show "?sc \<le> int (length (G @ [cq]))" using f(7) by simp
      show "length (G @ [cq]) \<le> length (S @ [?x])" using f(8) by simp
      show "\<forall>i \<in> set (G @ [cq]). 0 \<le> i \<and> i < int (quizLength d)"
        using f(9) f(4) cqhi by simp
      show "\<forall>i. 0 \<le> i \<and> i < cq \<longrightarrow> i \<in> set (G @ [cq])"
        using f(10) by simp
      show "\<forall>k. container ?c' = Some (QuizFeedbackView k) \<longrightarrow>
             quizQuestionsOf d \<noteq> [] \<and> k = int (length (plainSections d))
             \<and> currentSectionIndex ?c' = k \<and> cq \<in> set (G @ [cq])"
        using idx quiz by (simp add: st(1) split: option.splits view.splits)
      show "finished (S @ [?x]) \<longrightarrow>
             quizQuestionsOf d \<noteq> []
             \<and> (\<forall>i. 0 \<le> i \<and> i < int (quizLength d) \<longrightarrow> i \<in> set (G @ [cq]))"
        using f(12) fin by simp
      show "\<forall>sc' t p. Inr (QuizFinished sc' t p) \<in> set (S @ [?x]) \<longrightarrow>
             t = quizLength d \<and> 0 < t \<and> p = percentage sc' t
             \<and> 0 \<le> sc' \<and> sc' \<le> int (length (S @ [?x]))"
      proof (intro allI impI)
        fix sc' t p
        assume "Inr (QuizFinished sc' t p) \<in> set (S @ [?x])"
        with nof[of sc' t p] have "Inr (QuizFinished sc' t p) \<in> set S"
          by auto
        with f(13) have "t = quizLength d \<and> 0 < t \<and> p = percentage sc' t
             \<and> 0 \<le> sc' \<and> sc' \<le> int (length S)"
          by blast
        then show "t = quizLength d \<and> 0 < t \<and> p = percentage sc' t
             \<and> 0 \<le> sc' \<and> sc' \<le> int (length (S @ [?x]))"
          by simp
      qed
    qed
    with cur show ?thesis by simp
  qed
qed


lemma advanceQuizQuestion_next:
  assumes sh: "sections c = plainSections d @ quizPart d cq sc en"
    and view: "container c = Some (QuizFeedbackView (int (length (plainSections d))))"
    and idx: "currentSectionIndex c = int (length (plainSections d))"
    and quiz: "quizQuestionsOf d \<noteq> []"
    and cq: "0 \<le> cq" "cq < int (quizLength d) - 1"
  shows "advanceQuizQuestion c =
           (Inr NextQuestion,
            c\<lparr>sections := plainSections d @ quizPart d (cq + 1) sc en,
              container := Some QuizQuestionView\<rparr>)"
proof -
  let ?c1 = "updateSection (int (length (plainSections d))) incrementQuestion c"
  have up: "?c1 = c\<lparr>sections := plainSections d @ quizPart d (cq + 1) sc en\<rparr>"
    using updateSection_quiz[OF sh quiz, of incrementQuestion] quiz
    by (simp add: quizSectionWith_simps quizPart_def)
  have "renderSection ?c1 =
           (Inr (),
            ?c1\<lparr>container :=
                 (case container ?c1 of
                    None \<Rightarrow> None
                  | Some v \<Rightarrow>
                      Some (if currentSectionIndex ?c1 = int (length (plainSections d))
                            then QuizQuestionView else SectionView))\<rparr>)"
    by (rule renderSection_shaped[where cq = "cq + 1" and sc = sc and en = en])
       (use up idx quiz cq in \<open>simp_all add: quizPart_length\<close>)
  then have r: "renderSection ?c1 = (Inr (), ?c1\<lparr>container := Some QuizQuestionView\<rparr>)"
    using up view idx by simp
  show ?thesis
    using at_index_quiz[OF sh quiz] view cq r up
    by (simp add: advanceQuizQuestion_def quizSectionWith_simps quizLength_def)
qed

lemma showQuizResults_shaped:
  assumes sh: "sections c = plainSections d @ quizPart d cq sc en"
    and view: "container c = Some v" "v \<noteq> HostView"
    and idx: "currentSectionIndex c = int (length (plainSections d))"
    and quiz: "quizQuestionsOf d \<noteq> []"
  shows "showQuizResults c =
           (Inr (QuizFinished sc (quizLength d) (percentage sc (quizLength d))),
            c\<lparr>container := Some QuizResultsView,
              sections := plainSections d @ quizPart d cq sc True\<rparr>)"
proof -
  let ?c1 = "c\<lparr>container := Some QuizResultsView\<rparr>"
  have sh1: "sections ?c1 = plainSections d @ quizPart d cq sc en"
    using sh by simp
  have up: "updateSection (currentSectionIndex c) enableNext ?c1
              = ?c1\<lparr>sections := plainSections d @ quizPart d cq sc True\<rparr>"
    using updateSection_quiz[OF sh1 quiz, of enableNext] idx quiz
    by (simp add: quizSectionWith_simps quizPart_def)
  show ?thesis
    using current_quiz[OF sh idx quiz] view up
    by (cases v) (simp_all add: showQuizResults_def Let_def quizSectionWith_simps quizLength_def)
qed

lemma advanceQuizQuestion_finish:
  assumes sh: "sections c = plainSections d @ quizPart d cq sc en"
    and view: "container c = Some (QuizFeedbackView (int (length (plainSections d))))"
    and idx: "currentSectionIndex c = int (length (plainSections d))"
    and quiz: "quizQuestionsOf d \<noteq> []"
    and cq: "\<not> cq < int (quizLength d) - 1"
  shows "advanceQuizQuestion c =
           (Inr (QuizFinished sc (quizLength d) (percentage sc (quizLength d))),
            c\<lparr>container := Some QuizResultsView,
              sections := plainSections d @ quizPart d cq sc True\<rparr>)"
  using at_index_quiz[OF sh quiz] view cq
    showQuizResults_shaped[OF sh view _ idx quiz]
  by (simp add: advanceQuizQuestion_def quizSectionWith_simps quizLength_def)


lemma reachable_advanceQuizQuestion:
  assumes r: "reachable d c G S"
  shows "reachable d (snd (advanceQuizQuestion c)) G (S @ [fst (advanceQuizQuestion c)])"
proof -
  from r obtain cq sc where f:
    "sections c = plainSections d @ quizPart d cq sc (finished S)"
    "0 \<le> currentSectionIndex c"
    "currentSectionIndex c < int (length (sections c))"
    "0 \<le> cq"
    "quizQuestionsOf d \<noteq> [] \<longrightarrow> cq < int (quizLength d)"
    "0 \<le> sc"
    "sc \<le> int (length G)"
    "length G \<le> length S"
    "\<forall>i \<in> set G. 0 \<le> i \<and> i < int (quizLength d)"
    "\<forall>i. 0 \<le> i \<and> i < cq \<longrightarrow> i \<in> set G"
    "\<forall>k. container c = Some (QuizFeedbackView k) \<longrightarrow>
             quizQuestionsOf d \<noteq> [] \<and> k = int (length (plainSections d))
             \<and> currentSectionIndex c = k \<and> cq \<in> set G"
    "finished S \<longrightarrow>
             quizQuestionsOf d \<noteq> []
             \<and> (\<forall>i. 0 \<le> i \<and> i < int (quizLength d) \<longrightarrow> i \<in> set G)"
    "\<forall>sc' t p. Inr (QuizFinished sc' t p) \<in> set S \<longrightarrow>
             t = quizLength d \<and> 0 < t \<and> p = percentage sc' t
             \<and> 0 \<le> sc' \<and> sc' \<le> int (length S)"
    by (rule reachableE)
  show ?thesis
  proof (cases "\<exists>k. container c = Some (QuizFeedbackView k)")
    case False
    then have "advanceQuizQuestion c = (Inl NoSuchControl, c)"
      by (auto simp: advanceQuizQuestion_def split: option.splits view.splits)
    then show ?thesis
      using reachable_frame[OF r, of c "Inl NoSuchControl"] f(2,3) by simp
  next
    case True
    with f(11) have view: "container c = Some (QuizFeedbackView (int (length (plainSections d))))"
      and idx: "currentSectionIndex c = int (length (plainSections d))"
      and quiz: "quizQuestionsOf d \<noteq> []"
      and graded: "cq \<in> set G"
      by auto
    from f(5) quiz have cqhi: "cq < int (quizLength d)"
      by simp
    let ?c' = "snd (advanceQuizQuestion c)"
    let ?x = "fst (advanceQuizQuestion c)"
    show ?thesis
    proof (cases "cq < int (quizLength d) - 1")
      case True
      note st = advanceQuizQuestion_next[OF f(1) view idx quiz f(4) True]
      have fin: "finished (S @ [?x]) = finished S"
        by (simp add: st finished_snoc)
      show ?thesis
      proof (rule reachableI[where cq = "cq + 1" and sc = sc])
        show "sections ?c' = plainSections d @ quizPart d (cq + 1) sc (finished (S @ [?x]))"
          using fin by (simp add: st)
        show "0 \<le> currentSectionIndex ?c'"
          using f(2) by (simp add: st)
        show "currentSectionIndex ?c' < int (length (sections ?c'))"
          using idx quiz by (simp add: st quizPart_length)
        show "0 \<le> cq + 1" using f(4) by simp
        show "quizQuestionsOf d \<noteq> [] \<longrightarrow> cq + 1 < int (quizLength d)"
          using True by simp
        show "0 \<le> sc" by (rule f(6))
        show "sc \<le> int (length G)" by (rule f(7))
        show "length G \<le> length (S @ [?x])" using f(8) by simp
        show "\<forall>i \<in> set G. 0 \<le> i \<and> i < int (quizLength d)" by (rule f(9))
        show "\<forall>i. 0 \<le> i \<and> i < cq + 1 \<longrightarrow> i \<in> set G"
        proof (intro allI impI)
          fix i assume "0 \<le> i \<and> i < cq + 1"
          then have "(0 \<le> i \<and> i < cq) \<or> i = cq" by auto
          with f(10) graded show "i \<in> set G" by auto
        qed
        show "\<forall>k. container ?c' = Some (QuizFeedbackView k) \<longrightarrow>
             quizQuestionsOf d \<noteq> [] \<and> k = int (length (plainSections d))
             \<and> currentSectionIndex ?c' = k \<and> cq + 1 \<in> set G"
          by (simp add: st)
        show "finished (S @ [?x]) \<longrightarrow>
             quizQuestionsOf d \<noteq> []
             \<and> (\<forall>i. 0 \<le> i \<and> i < int (quizLength d) \<longrightarrow> i \<in> set G)"
          using f(12) fin by simp
        show "\<forall>sc' t p. Inr (QuizFinished sc' t p) \<in> set (S @ [?x]) \<longrightarrow>
             t = quizLength d \<and> 0 < t \<and> p = percentage sc' t
             \<and> 0 \<le> sc' \<and> sc' \<le> int (length (S @ [?x]))"
        proof (intro allI impI)
          fix sc' t p
          assume "Inr (QuizFinished sc' t p) \<in> set (S @ [?x])"
          then have "Inr (QuizFinished sc' t p) \<in> set S"
            by (simp add: st)
          with f(13) have "t = quizLength d \<and> 0 < t \<and> p = percentage sc' t
             \<and> 0 \<le> sc' \<and> sc' \<le> int (length S)"
            by blast
          then show "t = quizLength d \<and> 0 < t \<and> p = percentage sc' t
             \<and> 0 \<le> sc' \<and> sc' \<le> int (length (S @ [?x]))"
            by simp
        qed
      qed
    next
      case False
      note st = advanceQuizQuestion_finish[OF f(1) view idx quiz False]
      have fin: "finished (S @ [?x])"
        by (simp add: st finished_snoc)
      from False cqhi have last: "cq = int (quizLength d) - 1"
        by simp
      show ?thesis
      proof (rule reachableI[where cq = cq and sc = sc])
        show "sections ?c' = plainSections d @ quizPart d cq sc (finished (S @ [?x]))"
          using fin by (simp add: st)
        show "0 \<le> currentSectionIndex ?c'"
          using f(2) by (simp add: st)
        show "currentSectionIndex ?c' < int (length (sections ?c'))"
          using idx quiz by (simp add: st quizPart_length)
        show "0 \<le> cq" by (rule f(4))
        show "quizQuestionsOf d \<noteq> [] \<longrightarrow> cq < int (quizLength d)" by (rule f(5))
        show "0 \<le> sc" by (rule f(6))
        show "sc \<le> int (length G)" by (rule f(7))
        show "length G \<le> length (S @ [?x])" using f(8) by simp
        show "\<forall>i \<in> set G. 0 \<le> i \<and> i < int (quizLength d)" by (rule f(9))
        show "\<forall>i. 0 \<le> i \<and> i < cq \<longrightarrow> i \<in> set G" by (rule f(10))
        show "\<forall>k. container ?c' = Some (QuizFeedbackView k) \<longrightarrow>
             quizQuestionsOf d \<noteq> [] \<and> k = int (length (plainSections d))
             \<and> currentSectionIndex ?c' = k \<and> cq \<in> set G"
          by (simp add: st)
        show "finished (S @ [?x]) \<longrightarrow>
             quizQuestionsOf d \<noteq> []
             \<and> (\<forall>i. 0 \<le> i \<and> i < int (quizLength d) \<longrightarrow> i \<in> set G)"
        proof (intro impI conjI allI)
          show "quizQuestionsOf d \<noteq> []" by (rule quiz)
          fix i assume "0 \<le> i \<and> i < int (quizLength d)"
          with last have "(0 \<le> i \<and> i < cq) \<or> i = cq" by auto
          with f(10) graded show "i \<in> set G" by auto
        qed
        show "\<forall>sc' t p. Inr (QuizFinished sc' t p) \<in> set (S @ [?x]) \<longrightarrow>
             t = quizLength d \<and> 0 < t \<and> p = percentage sc' t
             \<and> 0 \<le> sc' \<and> sc' \<le> int (length (S @ [?x]))"
        proof (intro allI impI)
          fix sc' t p
          assume "Inr (QuizFinished sc' t p) \<in> set (S @ [?x])"
          then have "Inr (QuizFinished sc' t p) \<in> set S
                     \<or> (sc' = sc \<and> t = quizLength d \<and> p = percentage sc (quizLength d))"
            by (auto simp: st)
          then show "t = quizLength d \<and> 0 < t \<and> p = percentage sc' t
             \<and> 0 \<le> sc' \<and> sc' \<le> int (length (S @ [?x]))"
          proof
            assume "Inr (QuizFinished sc' t p) \<in> set S"
            with f(13) have "t = quizLength d \<and> 0 < t \<and> p = percentage sc' t
               \<and> 0 \<le> sc' \<and> sc' \<le> int (length S)"
              by blast
            then show ?thesis by simp
          next
            assume "sc' = sc \<and> t = quizLength d \<and> p = percentage sc (quizLength d)"
            with f(6,7,8) quizLength_pos[OF quiz] show ?thesis by simp
          qed
        qed
      qed
    qed
  qed
qed

lemma reachable_step:
  assumes "reachable d c G S"
  shows "reachable d (snd (step x c)) (G @ gradedQuestions [x] c) (S @ [fst (step x c)])"
proof (cases x)
  case Render
  with reachable_render[OF assms] show ?thesis by simp
next
  case NextSection
  with reachable_nextSection[OF assms] show ?thesis by simp
next
  case PrevSection
  with reachable_prevSection[OF assms] show ?thesis by simp
next
  case (SubmitQuizAnswer a)
  with reachable_submitQuizAnswer[OF assms, of a] show ?thesis by simp
next
  case AdvanceQuizQuestion
  with reachable_advanceQuizQuestion[OF assms] show ?thesis by simp
next
  case (SetOnComplete h)
  with reachable_setOnComplete[OF assms, of h] show ?thesis by simp
qed

lemma gradedQuestions_Cons:
  "gradedQuestions (x # xs) c = gradedQuestions [x] c @ gradedQuestions xs (snd (step x c))"
  by (cases x) simp_all

lemma reachable_run_from:
  assumes "reachable d c G S"
  shows "reachable d (run xs c) (G @ gradedQuestions xs c) (S @ signals xs c)"
  using assms
proof (induction xs arbitrary: c G S)
  case Nil
  then show ?case by simp
next
  case (Cons x xs)
  from Cons.IH[OF reachable_step[OF Cons.prems, of x]]
  show ?case
    by (simp add: gradedQuestions_Cons[of x xs c])
qed

lemma reachable_run:
  "reachable d (run xs (SequentialStudy d)) (gradedQuestions xs (SequentialStudy d))
     (signals xs (SequentialStudy d))"
  using reachable_run_from[OF reachable_init, of d xs] by simp

lemma quizScore_update:
  "quizScore (c\<lparr>container := v\<rparr>) = quizScore c"
  "quizScore (c\<lparr>currentSectionIndex := i\<rparr>) = quizScore c"
  "quizScore (c\<lparr>onComplete := h\<rparr>) = quizScore c"
  by (simp_all add: quizScore_def quizState_def quizSection_def)

text \<open>What one call does to the score, and which call finalizes the quiz.\<close>

lemma step_effect:
  assumes r: "reachable d c G S"
  shows "quizScore (snd (step x c)) = quizScore c + (if gradesCorrect x c then 1 else 0)"
    and "isFinished (fst (step x c)) \<longrightarrow>
           x = AdvanceQuizQuestion
           \<and> fst (step x c)
               = Inr (QuizFinished (quizScore c) (quizTotal c)
                        (percentage (quizScore c) (quizTotal c)))"
proof -
  from r obtain cq sc where f:
    "sections c = plainSections d @ quizPart d cq sc (finished S)"
    "0 \<le> currentSectionIndex c"
    "currentSectionIndex c < int (length (sections c))"
    "0 \<le> cq"
    "quizQuestionsOf d \<noteq> [] \<longrightarrow> cq < int (quizLength d)"
    "\<forall>k. container c = Some (QuizFeedbackView k) \<longrightarrow>
             quizQuestionsOf d \<noteq> [] \<and> k = int (length (plainSections d))
             \<and> currentSectionIndex c = k \<and> cq \<in> set G"
    by (rule reachableE)
  note obs = observations_shaped[OF f(1)]
  have "quizScore (snd (step x c)) = quizScore c + (if gradesCorrect x c then 1 else 0)
        \<and> (isFinished (fst (step x c)) \<longrightarrow>
           x = AdvanceQuizQuestion
           \<and> fst (step x c)
               = Inr (QuizFinished (quizScore c) (quizTotal c)
                        (percentage (quizScore c) (quizTotal c))))"
  proof (cases x)
    case Render
    then show ?thesis
      using render_shaped[OF f(1,2,3,4,5)] by (simp add: quizScore_update)
  next
    case NextSection
    show ?thesis
    proof (cases "currentSectionIndex c \<ge> int (length (sections c)) - 1")
      case True
      then have "nextSection c = (Inr (Completed (onComplete c)), c)"
        by (simp add: nextSection_def)
      with NextSection show ?thesis by simp
    next
      case False
      then have hi: "currentSectionIndex c < int (length (sections c)) - 1"
        by simp
      from nextSection_shaped[OF f(1,2) hi f(4,5)] NextSection show ?thesis
        by (simp add: quizScore_update)
    qed
  next
    case PrevSection
    show ?thesis
    proof (cases "currentSectionIndex c \<le> 0")
      case True
      then have "prevSection c = (Inr NoOp, c)"
        by (simp add: prevSection_def)
      with PrevSection show ?thesis by simp
    next
      case False
      then have lo: "0 < currentSectionIndex c"
        by simp
      from prevSection_shaped[OF f(1) lo f(3,4,5)] PrevSection show ?thesis
        by (simp add: quizScore_update)
    qed
  next
    case (SubmitQuizAnswer a)
    from index_cases[OF f(1,2,3)] show ?thesis
    proof
      assume less: "currentSectionIndex c < int (length (plainSections d))"
      then have none: "currentQuestionOf c = None"
        using currentQuestionOf_plain[OF f(1,2)] by simp
      then have "submitQuizAnswer a c = (Inl TypeError, c)"
        by (simp add: submitQuizAnswer_def)
      with none SubmitQuizAnswer show ?thesis by simp
    next
      assume "currentSectionIndex c = int (length (plainSections d)) \<and> quizQuestionsOf d \<noteq> []"
      then have idx: "currentSectionIndex c = int (length (plainSections d))"
        and quiz: "quizQuestionsOf d \<noteq> []"
        by simp_all
      from f(5) quiz have cqhi: "cq < int (quizLength d)"
        by simp
      note cur = currentQuestionOf_quiz[OF f(1) idx quiz f(4) cqhi]
      note st = submitQuizAnswer_shaped[OF f(1) idx quiz f(4) cqhi, of a]
      let ?ok = "isCorrect (take 3 (quizQuestionsOf d) ! nat cq) a"
      have "sections (snd (submitQuizAnswer a c))
              = plainSections d @ quizPart d cq (sc + (if ?ok then 1 else 0)) (finished S)"
        by (simp add: st(1))
      from observations_shaped(1)[OF this] quiz obs(1)
      have "quizScore (snd (submitQuizAnswer a c)) = quizScore c + (if ?ok then 1 else 0)"
        by simp
      moreover have "\<not> isFinished (fst (submitQuizAnswer a c))"
        by (simp add: st(2) split: option.splits view.splits)
      ultimately show ?thesis
        using SubmitQuizAnswer cur by simp
    qed
  next
    case AdvanceQuizQuestion
    show ?thesis
    proof (cases "\<exists>k. container c = Some (QuizFeedbackView k)")
      case False
      then have "advanceQuizQuestion c = (Inl NoSuchControl, c)"
        by (auto simp: advanceQuizQuestion_def split: option.splits view.splits)
      with AdvanceQuizQuestion show ?thesis by simp
    next
      case True
      with f(6) have view: "container c = Some (QuizFeedbackView (int (length (plainSections d))))"
        and idx: "currentSectionIndex c = int (length (plainSections d))"
        and quiz: "quizQuestionsOf d \<noteq> []"
        by auto
      show ?thesis
      proof (cases "cq < int (quizLength d) - 1")
        case True
        note st = advanceQuizQuestion_next[OF f(1) view idx quiz f(4) True]
        have "sections (snd (advanceQuizQuestion c))
                = plainSections d @ quizPart d (cq + 1) sc (finished S)"
          by (simp add: st)
        from observations_shaped(1)[OF this] quiz obs(1)
        have "quizScore (snd (advanceQuizQuestion c)) = quizScore c"
          by simp
        with AdvanceQuizQuestion st show ?thesis by simp
      next
        case False
        note st = advanceQuizQuestion_finish[OF f(1) view idx quiz False]
        have "sections (snd (advanceQuizQuestion c))
                = plainSections d @ quizPart d cq sc True"
          by (simp add: st)
        from observations_shaped(1)[OF this] quiz obs(1)
        have "quizScore (snd (advanceQuizQuestion c)) = quizScore c"
          by simp
        with AdvanceQuizQuestion st quiz obs show ?thesis by simp
      qed
    qed
  next
    case (SetOnComplete h)
    then show ?thesis
      by (simp add: setOnComplete_def quizScore_update)
  qed
  then show "quizScore (snd (step x c)) = quizScore c + (if gradesCorrect x c then 1 else 0)"
    and "isFinished (fst (step x c)) \<longrightarrow>
           x = AdvanceQuizQuestion
           \<and> fst (step x c)
               = Inr (QuizFinished (quizScore c) (quizTotal c)
                        (percentage (quizScore c) (quizTotal c)))"
    by simp_all
qed

subsection \<open>Rounding to a double\<close>

lemma bitlen_powi:
  assumes "0 < a"
  shows "(2::rat) powi (bitlen a - 1) \<le> of_int a" "of_int a < (2::rat) powi bitlen a"
proof -
  from bitlen_bounds[OF assms] have lo: "2 ^ nat (bitlen a - 1) \<le> a" and hi: "a < 2 ^ nat (bitlen a)"
    by simp_all
  from assms hi have pos: "0 < bitlen a"
    by (cases "bitlen a \<le> 0") simp_all
  from lo have "(of_int (2 ^ nat (bitlen a - 1)) :: rat) \<le> of_int a"
    by (simp only: of_int_le_iff)
  with pos show "(2::rat) powi (bitlen a - 1) \<le> of_int a"
    by (simp add: power_int_def)
  from hi have "(of_int a :: rat) < of_int (2 ^ nat (bitlen a))"
    by (simp only: of_int_less_iff)
  with pos show "of_int a < (2::rat) powi bitlen a"
    by (simp add: power_int_def)
qed

lemma binade_bounds:
  assumes "0 < x"
  shows "2 powi binade x \<le> x" "x < 2 powi (binade x + 1)"
proof -
  obtain a b where q: "quotient_of x = (a, b)"
    by (cases "quotient_of x")
  then have b: "0 < b" and x: "x = of_int a / of_int b"
    by (simp_all add: quotient_of_denom_pos quotient_of_div)
  from assms x b have a: "0 < a"
    by (simp add: zero_less_divide_iff)
  let ?d = "bitlen a - bitlen b"
  have "(2::rat) powi (?d + 1) * of_int b \<ge> 2 powi (?d + 1) * 2 powi (bitlen b - 1)"
    using bitlen_powi(1)[OF b] by (intro mult_left_mono) simp_all
  also have "(2::rat) powi (?d + 1) * 2 powi (bitlen b - 1) = 2 powi bitlen a"
    by (simp flip: power_int_add)
  finally have "of_int a < (2::rat) powi (?d + 1) * of_int b"
    using bitlen_powi(2)[OF a] by simp
  with b have up: "x < 2 powi (?d + 1)"
    by (simp add: x divide_less_eq)
  have "(2::rat) powi (?d - 1) * of_int b < 2 powi (?d - 1) * 2 powi bitlen b"
    using bitlen_powi(2)[OF b] by (intro mult_strict_left_mono) simp_all
  also have "(2::rat) powi (?d - 1) * 2 powi bitlen b = 2 powi (bitlen a - 1)"
    by (simp flip: power_int_add)
  finally have "(2::rat) powi (?d - 1) * of_int b < of_int a"
    using bitlen_powi(1)[OF a] by simp
  with b have low: "2 powi (?d - 1) < x"
    by (simp add: x less_divide_eq)
  show "2 powi binade x \<le> x"
    using low by (simp add: binade_def q Let_def)
  show "x < 2 powi (binade x + 1)"
    using up by (auto simp: binade_def q Let_def not_le)
qed

lemma roundTiesToEven_error: "\<bar>of_int (roundTiesToEven y) - y\<bar> \<le> 1 / 2"
proof -
  have "of_int \<lfloor>y\<rfloor> \<le> y" "y < of_int \<lfloor>y\<rfloor> + 1"
    by linarith+
  then show ?thesis
    by (auto simp: roundTiesToEven_def Let_def abs_le_iff)
qed

lemma fl_error:
  assumes "0 < x"
  shows "\<bar>fl x - x\<bar> \<le> x / 2 ^ 53"
proof -
  let ?u = "(2::rat) powi (binade x - 52)"
  have u: "0 < ?u"
    by (simp add: zero_less_power_int)
  have "fl x - x = (of_int (roundTiesToEven (x / ?u)) - x / ?u) * ?u"
    using assms u by (simp add: fl_def field_simps)
  then have "\<bar>fl x - x\<bar> = \<bar>of_int (roundTiesToEven (x / ?u)) - x / ?u\<bar> * ?u"
    using u by (simp add: abs_mult)
  also have "\<dots> \<le> 1 / 2 * ?u"
    using roundTiesToEven_error[of "x / ?u"] u by (intro mult_right_mono) simp_all
  also have "1 / 2 * ?u = 2 powi binade x / 2 ^ 53"
    by (simp add: power_int_diff)
  also have "\<dots> \<le> x / 2 ^ 53"
    using binade_bounds(1)[OF assms] by (simp add: divide_right_mono)
  finally show ?thesis .
qed


lemma floor_near_third:
  fixes p :: rat and m :: int
  assumes "\<bar>p - of_int m / 3\<bar> < 1 / 6"
  shows "\<lfloor>p + 1 / 2\<rfloor> = \<lfloor>of_int m / 3 + 1 / 2 :: rat\<rfloor>"
proof -
  obtain k r where m: "m = 3 * k + r" and r: "r = 0 \<or> r = 1 \<or> r = 2"
  proof
    show "m = 3 * (m div 3) + m mod 3" by simp
    have "0 \<le> m mod 3" "m mod 3 < 3" by simp_all
    then show "m mod 3 = 0 \<or> m mod 3 = 1 \<or> m mod 3 = 2" by linarith
  qed
  have y: "(of_int m / 3 :: rat) = of_int k + of_int r / 3"
    by (simp add: m)
  from assms have b: "of_int k + of_int r / 3 - 1 / 6 < p" "p < of_int k + of_int r / 3 + 1 / 6"
    unfolding y by linarith+
  from r show ?thesis
  proof (elim disjE)
    assume "r = 0"
    with b have "\<lfloor>p + 1 / 2\<rfloor> = k" "\<lfloor>of_int k + of_int r / 3 + 1 / 2 :: rat\<rfloor> = k"
      by (simp_all add: floor_eq_iff)
    then show ?thesis by (simp add: y)
  next
    assume "r = 1"
    with b have "\<lfloor>p + 1 / 2\<rfloor> = k" "\<lfloor>of_int k + of_int r / 3 + 1 / 2 :: rat\<rfloor> = k"
      by (simp_all add: floor_eq_iff)
    then show ?thesis by (simp add: y)
  next
    assume "r = 2"
    with b have "\<lfloor>p + 1 / 2\<rfloor> = k + 1" "\<lfloor>of_int k + of_int r / 3 + 1 / 2 :: rat\<rfloor> = k + 1"
      by (simp_all add: floor_eq_iff)
    then show ?thesis by (simp add: y)
  qed
qed

lemma fl_twice_error:
  fixes x :: rat
  assumes "0 < x"
  shows "\<bar>fl (fl x * 100) - 100 * x\<bar> \<le> 300 * x / 2 ^ 53"
proof -
  let ?q = "fl x"
  have e1: "\<bar>?q - x\<bar> \<le> x / 2 ^ 53"
    by (rule fl_error[OF assms])
  have small: "x / 2 ^ 53 \<le> x / 2"
    using assms by (intro divide_left_mono) simp_all
  from e1 small assms have qpos: "0 < ?q" and qle: "?q \<le> 2 * x"
    by linarith+
  from qpos have e2: "\<bar>fl (?q * 100) - ?q * 100\<bar> \<le> ?q * 100 / 2 ^ 53"
    by (intro fl_error) simp
  have "?q * 100 / 2 ^ 53 \<le> 200 * x / 2 ^ 53"
    using qle by (simp add: divide_right_mono)
  with e2 have e3: "\<bar>fl (?q * 100) - ?q * 100\<bar> \<le> 200 * x / 2 ^ 53"
    by simp
  define p where "p = fl (?q * 100)"
  define q where "q = fl x"
  define w where "w = x / 2 ^ 53"
  from e1 have q1: "x - w \<le> q" "q \<le> x + w"
    unfolding q_def w_def by linarith+
  from e3 have p1: "q * 100 - 200 * w \<le> p" "p \<le> q * 100 + 200 * w"
    unfolding p_def q_def w_def by linarith+
  from q1 p1 have "\<bar>p - 100 * x\<bar> \<le> 300 * w"
    by linarith
  then show ?thesis
    unfolding p_def q_def w_def by simp
qed

lemma percentage_exact:
  assumes sc: "0 \<le> sc" "sc \<le> 2 ^ 42" and t: "t = 1 \<or> t = 2 \<or> t = 3"
  shows "percentage sc t = Some \<lfloor>100 * of_int sc / of_nat t + 1 / 2 :: rat\<rfloor>"
proof (cases "sc = 0")
  case True
  with t show ?thesis
    by (auto simp: percentage_def js_div_def js_mul_def fl_def Math_round_def)
next
  case False
  with sc have pos: "0 < sc" by simp
  let ?x = "of_int sc / of_nat t :: rat"
  from t pos have x: "0 < ?x"
    by auto
  from t pos have xle: "?x \<le> of_int sc"
    by (auto simp: field_simps)
  from sc(2) have "(of_int sc :: rat) \<le> of_int (2 ^ 42)"
    by (simp only: of_int_le_iff)
  with xle have x42: "?x \<le> 2 ^ 42"
    by simp
  let ?p = "fl (fl ?x * 100)"
  have "\<bar>?p - 100 * ?x\<bar> \<le> 300 * ?x / 2 ^ 53"
    by (rule fl_twice_error[OF x])
  also have "\<dots> \<le> 300 * 2 ^ 42 / 2 ^ 53"
    using x42 by (intro divide_right_mono mult_left_mono) simp_all
  also have "\<dots> < 1 / 6"
    by simp
  finally have near: "\<bar>?p - 100 * ?x\<bar> < 1 / 6" .
  obtain m :: int where m: "100 * ?x = of_int m / 3"
  proof -
    from t have "100 * ?x = of_int ((300 div int t) * sc) / 3"
      by auto
    then show ?thesis ..
  qed
  from near have "\<lfloor>?p + 1 / 2\<rfloor> = \<lfloor>100 * ?x + 1 / 2\<rfloor>"
    unfolding m by (rule floor_near_third)
  moreover from t have "percentage sc t = Some \<lfloor>?p + 1 / 2\<rfloor>"
    by (auto simp: percentage_def js_div_def js_mul_def Math_round_def)
  ultimately show ?thesis
    by simp
qed

lemma no_tie:
  fixes m :: int
  shows "frac (of_int m / 3 :: rat) \<noteq> 1 / 2"
proof
  assume "frac (of_int m / 3 :: rat) = 1 / 2"
  then have "(of_int m / 3 :: rat) = of_int \<lfloor>of_int m / 3 :: rat\<rfloor> + 1 / 2"
    by (simp add: frac_def)
  then have "(of_int (2 * m) :: rat) = of_int (6 * \<lfloor>of_int m / 3 :: rat\<rfloor> + 3)"
    by (simp add: field_simps)
  then have "2 * m = 6 * \<lfloor>of_int m / 3 :: rat\<rfloor> + 3"
    by (simp only: of_int_eq_iff)
  then show False
    by presburger
qed

subsection \<open>The quiz\<close>

lemma length_signals: "length (signals xs c) = length xs"
  by (induction xs arbitrary: c) simp_all




lemma score_monotone_from:
  assumes "reachable d c G S"
  shows "quizScore c \<le> quizScore (run ys c)"
  using assms
proof (induction ys arbitrary: c G S)
  case Nil
  then show ?case by simp
next
  case (Cons y ys)
  have "quizScore c \<le> quizScore (snd (step y c))"
    by (simp add: step_effect(1)[OF Cons.prems])
  also have "\<dots> \<le> quizScore (run ys (snd (step y c)))"
    by (rule Cons.IH[OF reachable_step[OF Cons.prems]])
  finally show ?case by simp
qed

lemma distinct_in_range:
  fixes G :: "int list"
  assumes "distinct G" "\<forall>i \<in> set G. 0 \<le> i \<and> i < int n"
  shows "length G \<le> n"
proof -
  from assms(2) have "set G \<subseteq> {0..<int n}"
    by auto
  then have "card (set G) \<le> card {0..<int n}"
    by (intro card_mono) simp_all
  with assms(1) show ?thesis
    by (simp add: distinct_card)
qed

lemma quizLength_min: "quizLength d = min 3 (length (quizQuestionsOf d))"
  by (simp add: quizLength_def min_def)

text \<open>
  Claim C6, as the code has it. After every sequence of calls on a new controller the
  score of the quiz section is not negative; it never decreases along a run; a call
  changes it only by grading an answer, by exactly one when the answer is graded as
  correct and not at all otherwise, so it is at most the number of gradings; and it is
  at most the number of questions (the first three of the document, at most) whenever
  no question has been graded more than once in the run. The controller does not itself
  keep a question from being graded twice.
\<close>

theorem score_invariant:
  "0 \<le> quizScore (run xs (SequentialStudy d))
   \<and> quizScore (run xs (SequentialStudy d)) \<le> quizScore (run (xs @ ys) (SequentialStudy d))
   \<and> quizScore (snd (step x (run xs (SequentialStudy d))))
       = quizScore (run xs (SequentialStudy d))
         + (if gradesCorrect x (run xs (SequentialStudy d)) then 1 else 0)
   \<and> quizScore (run xs (SequentialStudy d))
       \<le> int (length (gradedQuestions xs (SequentialStudy d)))
   \<and> quizTotal (run xs (SequentialStudy d)) = min 3 (length (quizQuestionsOf d))
   \<and> (distinct (gradedQuestions xs (SequentialStudy d)) \<longrightarrow>
        quizScore (run xs (SequentialStudy d)) \<le> int (quizTotal (run xs (SequentialStudy d))))"
proof -
  let ?c = "run xs (SequentialStudy d)"
  let ?G = "gradedQuestions xs (SequentialStudy d)"
  let ?S = "signals xs (SequentialStudy d)"
  have r: "reachable d ?c ?G ?S"
    by (rule reachable_run)
  then obtain cq sc where f:
    "sections ?c = plainSections d @ quizPart d cq sc (finished ?S)"
    "0 \<le> sc"
    "sc \<le> int (length ?G)"
    "\<forall>i \<in> set ?G. 0 \<le> i \<and> i < int (quizLength d)"
    by (rule reachableE)
  note obs = observations_shaped[OF f(1)]
  have nonneg: "0 \<le> quizScore ?c"
    using obs(1) f(2) by simp
  have mono: "quizScore ?c \<le> quizScore (run (xs @ ys) (SequentialStudy d))"
    using score_monotone_from[OF r, of ys] by (simp add: run_append)
  have one: "quizScore (snd (step x ?c)) = quizScore ?c + (if gradesCorrect x ?c then 1 else 0)"
    by (rule step_effect(1)[OF r])
  have le: "quizScore ?c \<le> int (length ?G)"
    using obs(1) f(3) by simp
  have tot: "quizTotal ?c = min 3 (length (quizQuestionsOf d))"
    using obs(2) by (simp add: quizLength_min)
  have bound: "quizScore ?c \<le> int (quizTotal ?c)" if "distinct ?G"
    using distinct_in_range[OF that f(4)] le obs(2) by simp
  show ?thesis
    using nonneg mono one le tot bound by blast
qed

theorem score_invariant_witness:
  "distinct (gradedQuestions
       [Render, NextSection, SubmitQuizAnswer ''Paris'', AdvanceQuizQuestion,
        SubmitQuizAnswer ''mitochondria'', AdvanceQuizQuestion]
       (SequentialStudy twoQuestionPlan))
   \<and> quizScore (run [Render, NextSection, SubmitQuizAnswer ''Paris'', AdvanceQuizQuestion,
                     SubmitQuizAnswer ''mitochondria'', AdvanceQuizQuestion]
                  (SequentialStudy twoQuestionPlan)) = 2
   \<and> quizScore (run [Render, NextSection, SubmitQuizAnswer ''Paris'', AdvanceQuizQuestion,
                     SubmitQuizAnswer ''mitochondria'', AdvanceQuizQuestion]
                  (SequentialStudy twoQuestionPlan))
       \<le> int (quizTotal (run [Render, NextSection, SubmitQuizAnswer ''Paris'',
                               AdvanceQuizQuestion, SubmitQuizAnswer ''mitochondria'',
                               AdvanceQuizQuestion]
                            (SequentialStudy twoQuestionPlan)))"
proof -
  let ?xs = "[Render, NextSection, SubmitQuizAnswer ''Paris'', AdvanceQuizQuestion,
              SubmitQuizAnswer ''mitochondria'', AdvanceQuizQuestion]"
  have h: "distinct (gradedQuestions ?xs (SequentialStudy twoQuestionPlan))"
    by code_simp
  have s: "quizScore (run ?xs (SequentialStudy twoQuestionPlan)) = 2"
    by code_simp
  show ?thesis
    using score_invariant [of ?xs twoQuestionPlan] h s by blast
qed

text \<open>
  The claim C6 as it is stated fails: a second \<^verbatim>\<open>submitQuizAnswer\<close> on the question
  whose feedback is shown grades it again, and the score of a quiz of one question
  becomes 2.
\<close>

theorem score_bound_counterexample:
  "quizTotal (run [Render, NextSection, SubmitQuizAnswer ''Paris'', SubmitQuizAnswer ''Paris'']
                (SequentialStudy oneQuestionPlan)) = 1
   \<and> quizScore (run [Render, NextSection, SubmitQuizAnswer ''Paris'', SubmitQuizAnswer ''Paris'']
                  (SequentialStudy oneQuestionPlan)) = 2
   \<and> gradedQuestions [Render, NextSection, SubmitQuizAnswer ''Paris'', SubmitQuizAnswer ''Paris'']
        (SequentialStudy oneQuestionPlan) = [0, 0]
   \<and> signals [Render, NextSection, SubmitQuizAnswer ''Paris'', SubmitQuizAnswer ''Paris'']
        (SequentialStudy oneQuestionPlan)
       = [Inr Done, Inr Advanced, Inr (Answered True), Inr (Answered True)]
   \<and> \<not> quizScore (run [Render, NextSection, SubmitQuizAnswer ''Paris'', SubmitQuizAnswer ''Paris'']
                    (SequentialStudy oneQuestionPlan))
        \<le> int (quizTotal (run [Render, NextSection, SubmitQuizAnswer ''Paris'',
                                 SubmitQuizAnswer ''Paris'']
                             (SequentialStudy oneQuestionPlan)))"
  by code_simp



text \<open>
  Claim C8. When a call finalizes the quiz, after a run of at most \<open>2^42\<close> calls on a new
  controller, the call is the click on the next-question button, and the score, the
  total and the percentage it reports are the score of the quiz section, the number of
  its questions and \<open>100 * score / total\<close> rounded to the nearest integer; the quotient is
  never halfway between two integers, so the way of rounding a tie does not matter. The
  percentage is computed as JavaScript does, with two roundings to a double.
\<close>

theorem quiz_percentage:
  assumes fin: "fst (step x (run xs (SequentialStudy d))) = Inr (QuizFinished sc t p)"
    and len: "length xs \<le> 2 ^ 42"
  shows "x = AdvanceQuizQuestion
         \<and> sc = quizScore (run xs (SequentialStudy d))
         \<and> t = quizTotal (run xs (SequentialStudy d))
         \<and> 0 < t
         \<and> p = Some (round (100 * of_int sc / of_nat t :: rat))
         \<and> frac (100 * of_int sc / of_nat t :: rat) \<noteq> 1 / 2"
proof -
  let ?c = "run xs (SequentialStudy d)"
  let ?G = "gradedQuestions xs (SequentialStudy d)"
  let ?S = "signals xs (SequentialStudy d)"
  have r: "reachable d ?c ?G ?S"
    by (rule reachable_run)
  from fin have isf: "isFinished (fst (step x ?c))"
    by simp
  from step_effect(2)[OF r, of x] isf fin
  have x: "x = AdvanceQuizQuestion" and sc: "sc = quizScore ?c" and t: "t = quizTotal ?c"
    and p: "p = percentage sc t"
    by simp_all
  from r obtain cq sc' where f:
    "sections ?c = plainSections d @ quizPart d cq sc' (finished ?S)"
    "0 \<le> sc'"
    "sc' \<le> int (length ?G)"
    "length ?G \<le> length ?S"
    by (rule reachableE)
  note obs = observations_shaped[OF f(1)]
  have "reachable d (snd (step x ?c)) (?G @ gradedQuestions [x] ?c) (?S @ [fst (step x ?c)])"
    by (rule reachable_step[OF r])
  then obtain cq2 sc2 where g:
    "finished (?S @ [fst (step x ?c)]) \<longrightarrow> quizQuestionsOf d \<noteq> []"
    by (rule reachableE) blast
  from g isf have quiz: "quizQuestionsOf d \<noteq> []"
    by (simp add: finished_snoc)
  from obs(2) t have tl: "t = quizLength d"
    by simp
  with quizLength_pos[OF quiz] quizLength_le[of d] have t3: "t = 1 \<or> t = 2 \<or> t = 3"
    by auto
  from obs(1) quiz sc have "sc = sc'"
    by simp
  with f(2,3,4) len have s0: "0 \<le> sc" and "sc \<le> int (length xs)"
    by (simp_all add: length_signals)
  moreover from len have "int (length xs) \<le> 2 ^ 42"
    by (metis of_nat_le_iff of_nat_numeral of_nat_power)
  ultimately have s42: "sc \<le> 2 ^ 42"
    by simp
  have "p = Some (round (100 * of_int sc / of_nat t :: rat))"
    unfolding p round_def by (rule percentage_exact[OF s0 s42 t3])
  moreover have "frac (100 * of_int sc / of_nat t :: rat) \<noteq> 1 / 2"
  proof -
    from t3 have "(100 * of_int sc / of_nat t :: rat) = of_int ((300 div int t) * sc) / 3"
      by auto
    then show ?thesis
      by (simp only: no_tie not_False_eq_True)
  qed
  ultimately show ?thesis
    using x sc t t3 by auto
qed

theorem quiz_percentage_witness:
  "fst (step AdvanceQuizQuestion
         (run [Render, NextSection, SubmitQuizAnswer ''Paris'', AdvanceQuizQuestion,
               SubmitQuizAnswer ''nucleus'', AdvanceQuizQuestion, SubmitQuizAnswer ''paris'']
            (SequentialStudy threeQuestionPlan)))
     = Inr (QuizFinished 2 3 (Some 67))
   \<and> length [Render, NextSection, SubmitQuizAnswer ''Paris'', AdvanceQuizQuestion,
             SubmitQuizAnswer ''nucleus'', AdvanceQuizQuestion, SubmitQuizAnswer ''paris'']
       \<le> 2 ^ 42
   \<and> quizScore
        (run [Render, NextSection, SubmitQuizAnswer ''Paris'', AdvanceQuizQuestion,
              SubmitQuizAnswer ''nucleus'', AdvanceQuizQuestion, SubmitQuizAnswer ''paris'']
           (SequentialStudy threeQuestionPlan)) = 2
   \<and> quizTotal
        (run [Render, NextSection, SubmitQuizAnswer ''Paris'', AdvanceQuizQuestion,
              SubmitQuizAnswer ''nucleus'', AdvanceQuizQuestion, SubmitQuizAnswer ''paris'']
           (SequentialStudy threeQuestionPlan)) = 3
   \<and> Some 67 = Some (round (100 * of_int 2 / of_nat 3 :: rat))"
proof -
  let ?xs = "[Render, NextSection, SubmitQuizAnswer ''Paris'', AdvanceQuizQuestion,
              SubmitQuizAnswer ''nucleus'', AdvanceQuizQuestion, SubmitQuizAnswer ''paris'']"
  have fin: "fst (step AdvanceQuizQuestion (run ?xs (SequentialStudy threeQuestionPlan)))
               = Inr (QuizFinished 2 3 (Some 67))"
    by code_simp
  have len: "length ?xs \<le> 2 ^ 42"
    by simp
  show ?thesis
    using quiz_percentage [OF fin len] fin len by simp
qed

end
